theory Spec2Isabelle
  imports Main "HOL-Library.Multiset"
begin

section \<open>The environment: exceptions, files, the network\<close>

text \<open>
  The program is the Python class \<open>SubdomainEnumerator\<close> of \<open>subdomain_enum.py\<close>.
  Strings are byte sequences (UTF-8). Everything the class touches outside its own
  fields is part of the state that the model passes along: the file system, the lines
  printed so far, and the requests sent so far.
\<close>

datatype exn =
    IndexError
  | FileNotFoundError string
  | OSError string
  | RequestException string
  | OtherException string

text \<open>The text that \<open>f"{e}"\<close> prints for an exception.\<close>

fun exn_str :: "exn \<Rightarrow> string" where
  "exn_str IndexError = ''pop from empty list''"
| "exn_str (FileNotFoundError m) = m"
| "exn_str (OSError m) = m"
| "exn_str (RequestException m) = m"
| "exn_str (OtherException m) = m"

text \<open>
  A path names nothing, a text file, or something that cannot be opened (a directory, a
  file without permission); the string of \<open>Blocked\<close> is the message of the error that
  \<open>open\<close> raises on it.
\<close>

datatype fnode = File string | Blocked string

type_synonym filesystem = "string \<Rightarrow> fnode option"

definition LF :: char where
  "LF = CHR 0x0A"

definition CR :: char where
  "CR = CHR 0x0D"

definition no_such_file :: "string \<Rightarrow> string" where
  "no_such_file path =
     ''[Errno 2] No such file or directory: '' @ [CHR 0x27] @ path @ [CHR 0x27]"

text \<open>\<open>open(path, 'r')\<close> followed by reading the whole file.\<close>

definition open_read :: "string \<Rightarrow> filesystem \<Rightarrow> exn + string" where
  "open_read path fs =
     (case fs path of
        None \<Rightarrow> Inl (FileNotFoundError (no_such_file path))
      | Some (Blocked m) \<Rightarrow> Inl (OSError m)
      | Some (File content) \<Rightarrow> Inr content)"

text \<open>\<open>open(path, 'w').close()\<close>: the file is created or cut to length zero.\<close>

definition open_write :: "string \<Rightarrow> filesystem \<Rightarrow> exn + filesystem" where
  "open_write path fs =
     (case fs path of
        Some (Blocked m) \<Rightarrow> Inl (OSError m)
      | _ \<Rightarrow> Inr (fs(path \<mapsto> File [])))"

text \<open>\<open>with open(path, 'a') as f: f.write(text)\<close>.\<close>

definition open_append :: "string \<Rightarrow> string \<Rightarrow> filesystem \<Rightarrow> exn + filesystem" where
  "open_append path text fs =
     (case fs path of
        Some (Blocked m) \<Rightarrow> Inl (OSError m)
      | None \<Rightarrow> Inr (fs(path \<mapsto> File text))
      | Some (File content) \<Rightarrow> Inr (fs(path \<mapsto> File (content @ text))))"

text \<open>
  Reading a text file translates \<open>\r\n\<close> and \<open>\r\<close> to \<open>\n\<close>; iterating over it yields the
  lines, each with its \<open>\n\<close> (the last one may lack it).
\<close>

fun universal_newlines :: "string \<Rightarrow> string" where
  "universal_newlines [] = []"
| "universal_newlines [c] = [if c = CR then LF else c]"
| "universal_newlines (c # d # cs) =
     (if c = CR \<and> d = LF then LF # universal_newlines cs
      else if c = CR then LF # universal_newlines (d # cs)
      else c # universal_newlines (d # cs))"

fun file_lines :: "string \<Rightarrow> string list" where
  "file_lines [] = []"
| "file_lines (c # cs) =
     (if c = LF then [c] # file_lines cs
      else (case file_lines cs of
              [] \<Rightarrow> [[c]]
            | l # ls \<Rightarrow> (c # l) # ls))"

text \<open>\<open>str.strip()\<close>, for the white space of ASCII.\<close>

definition isspace :: "char \<Rightarrow> bool" where
  "isspace c \<longleftrightarrow>
     (let n = of_char c :: nat in (9 \<le> n \<and> n \<le> 13) \<or> (28 \<le> n \<and> n \<le> 32))"

definition strip :: "string \<Rightarrow> string" where
  "strip s = rev (dropWhile isspace (rev (dropWhile isspace s)))"

text \<open>\<open>str(n)\<close> for an integer.\<close>

definition digit_chr :: "nat \<Rightarrow> char" where
  "digit_chr d = char_of (48 + d)"

fun str_nat :: "nat \<Rightarrow> string" where
  "str_nat n = (if n < 10 then [digit_chr n] else str_nat (n div 10) @ [digit_chr (n mod 10)])"

definition str_int :: "int \<Rightarrow> string" where
  "str_int i = (if i < 0 then CHR ''-'' # str_nat (nat (- i)) else str_nat (nat i))"

text \<open>
  A call of \<open>requests.get\<close> with its keyword arguments (\<open>verify\<close> is \<open>True\<close> when the
  call does not pass it), and what comes back: a response with its status code, an
  exception of the class \<open>requests.exceptions.RequestException\<close> (connection refused,
  DNS failure, TLS failure, timeout, bad redirect), or an exception of another class.
\<close>

record request =
  req_url :: string
  req_timeout :: int
  req_allow_redirects :: bool
  req_verify :: bool

datatype response = Response int | RequestError string | OtherError string

section \<open>The object and its state\<close>

text \<open>
  The first eight fields are the attributes of the object (the lock has no value of its
  own: a block under \<open>with self.lock\<close> is one atomic step). The last four are the
  environment: the file system, the lines printed (one entry for each \<open>print\<close>), the
  requests sent, and the network, which answers a request knowing all earlier ones.
\<close>

record state =
  domain :: string
  subdomain_file :: string
  output_file :: string
  max_threads :: int
  timeout :: int
  discovered_subdomains :: "string list"
  total_subdomains :: int
  checked_count :: int
  files :: filesystem
  stdout :: "string list"
  sent :: "request list"
  network :: "request list \<Rightarrow> request \<Rightarrow> response"

definition print :: "string \<Rightarrow> state \<Rightarrow> state" where
  "print line s = s\<lparr>stdout := stdout s @ [line]\<rparr>"

text \<open>\<open>__init__\<close>, in an environment.\<close>

definition init :: "string \<Rightarrow> string \<Rightarrow> string \<Rightarrow> int \<Rightarrow> int \<Rightarrow>
    filesystem \<Rightarrow> (request list \<Rightarrow> request \<Rightarrow> response) \<Rightarrow> state" where
  "init domain' subdomain_file' output_file' threads timeout' fs net =
     \<lparr>domain = domain', subdomain_file = subdomain_file', output_file = output_file',
      max_threads = threads, timeout = timeout', discovered_subdomains = [],
      total_subdomains = 0, checked_count = 0,
      files = fs, stdout = [], sent = [], network = net\<rparr>"

section \<open>load_subdomains\<close>

definition parse_subdomains :: "string \<Rightarrow> string list" where
  "parse_subdomains content =
     map strip (filter (\<lambda>line. strip line \<noteq> []) (file_lines (universal_newlines content)))"

text \<open>
  Both handlers print and return the empty list, so the method raises nothing; its
  result type has the error side all the same, to say so.
\<close>

definition load_subdomains :: "state \<Rightarrow> (exn + string list) \<times> state" where
  "load_subdomains s =
     (case open_read (subdomain_file s) (files s) of
        Inr content \<Rightarrow>
          (let subdomains = parse_subdomains content;
               s1 = s\<lparr>total_subdomains := int (length subdomains)\<rparr>;
               s2 = print (''[INFO] Loaded '' @ str_int (total_subdomains s1) @
                           '' subdomains from '' @ subdomain_file s1) s1
           in (Inr subdomains, s2))
      | Inl (FileNotFoundError m) \<Rightarrow>
          (Inr [], print (''[ERROR] File '' @ subdomain_file s @ '' not found!'') s)
      | Inl e \<Rightarrow>
          (Inr [], print (''[ERROR] Error reading file: '' @ exn_str e) s))"

section \<open>save_discovered_subdomain\<close>

definition discovery_info :: "string \<Rightarrow> string \<Rightarrow> int \<Rightarrow> string" where
  "discovery_info subdomain url status_code =
     subdomain @ '' - '' @ url @ '' (Status: '' @ str_int status_code @ '')''"

text \<open>
  The whole body is under the lock. The list is extended first; when the file cannot be
  opened the error leaves the method with the list already extended.
\<close>

definition save_discovered_subdomain ::
    "string \<Rightarrow> string \<Rightarrow> int \<Rightarrow> state \<Rightarrow> (exn + unit) \<times> state" where
  "save_discovered_subdomain subdomain url status_code s =
     (let info = discovery_info subdomain url status_code;
          s1 = s\<lparr>discovered_subdomains := discovered_subdomains s @ [info]\<rparr>
      in case open_append (output_file s1) (info @ [LF]) (files s1) of
           Inl e \<Rightarrow> (Inl e, s1)
         | Inr fs \<Rightarrow> (Inr (), print (''[FOUND] '' @ info) (s1\<lparr>files := fs\<rparr>)))"

section \<open>check_subdomain\<close>

text \<open>The block under the lock at the start of the method.\<close>

definition count_progress :: "state \<Rightarrow> state" where
  "count_progress s =
     (let s1 = s\<lparr>checked_count := checked_count s + 1\<rparr>;
          current_count = checked_count s1
      in if current_count mod 10 = 0 \<or> current_count = 1
         then print (''[PROGRESS] Checking '' @ str_int current_count @ ''/'' @
                     str_int (total_subdomains s1) @ '' subdomains...'') s1
         else s1)"

definition http_url :: "string \<Rightarrow> state \<Rightarrow> string" where
  "http_url subdomain s = ''http://'' @ subdomain @ ''.'' @ domain s"

definition https_url :: "string \<Rightarrow> state \<Rightarrow> string" where
  "https_url subdomain s = ''https://'' @ subdomain @ ''.'' @ domain s"

definition fqdn :: "string \<Rightarrow> state \<Rightarrow> string" where
  "fqdn subdomain s = subdomain @ ''.'' @ domain s"

definition http_request :: "string \<Rightarrow> state \<Rightarrow> request" where
  "http_request subdomain s =
     \<lparr>req_url = http_url subdomain s, req_timeout = timeout s,
      req_allow_redirects = True, req_verify = True\<rparr>"

definition https_request :: "string \<Rightarrow> state \<Rightarrow> request" where
  "https_request subdomain s =
     \<lparr>req_url = https_url subdomain s, req_timeout = timeout s,
      req_allow_redirects = True, req_verify = False\<rparr>"

definition requests_get :: "request \<Rightarrow> state \<Rightarrow> response \<times> state" where
  "requests_get r s = (network s (sent s) r, s\<lparr>sent := sent s @ [r]\<rparr>)"

text \<open>
  What one \<open>try\<close> block makes of the answer: a status below 400 goes on to save and
  return \<open>True\<close>; a higher status and a \<open>RequestException\<close> (\<open>pass\<close>) fall out of the
  block; any other exception leaves the method.
\<close>

datatype attempt = Success int | Failed | Escapes exn

fun attempt_of :: "response \<Rightarrow> attempt" where
  "attempt_of (Response status_code) = (if status_code < 400 then Success status_code else Failed)"
| "attempt_of (RequestError m) = Failed"
| "attempt_of (OtherError m) = Escapes (OtherException m)"

text \<open>\<open>self.save_discovered_subdomain(...); return True\<close>.\<close>

definition save_and_return :: "string \<Rightarrow> string \<Rightarrow> int \<Rightarrow> state \<Rightarrow> (exn + bool) \<times> state" where
  "save_and_return subdomain url status_code s =
     (case save_discovered_subdomain (fqdn subdomain s) url status_code s of
        (Inl e, s') \<Rightarrow> (Inl e, s')
      | (Inr u, s') \<Rightarrow> (Inr True, s'))"

definition check_subdomain :: "string \<Rightarrow> state \<Rightarrow> (exn + bool) \<times> state" where
  "check_subdomain subdomain s0 =
     (let s1 = count_progress s0;
          (r1, s2) = requests_get (http_request subdomain s1) s1
      in case attempt_of r1 of
           Success status_code \<Rightarrow> save_and_return subdomain (http_url subdomain s2) status_code s2
         | Escapes e \<Rightarrow> (Inl e, s2)
         | Failed \<Rightarrow>
             (let (r2, s3) = requests_get (https_request subdomain s2) s2
              in case attempt_of r2 of
                   Success status_code \<Rightarrow>
                     save_and_return subdomain (https_url subdomain s3) status_code s3
                 | Escapes e \<Rightarrow> (Inl e, s3)
                 | Failed \<Rightarrow> (Inr False, s3)))"

section \<open>worker\<close>

text \<open>
  What the loop of \<open>worker\<close> does with an exception: \<open>IndexError\<close> ends the loop, any
  other one is printed and the loop goes on.
\<close>

definition thread_error :: "exn \<Rightarrow> state \<Rightarrow> state" where
  "thread_error e s = print (''[ERROR] Thread error: '' @ exn_str e) s"

text \<open>One worker alone on its queue: the result is the queue left and the state.\<close>

fun worker :: "string list \<Rightarrow> state \<Rightarrow> string list \<times> state" where
  "worker [] s = ([], s)"
| "worker (subdomain # rest) s =
     (case check_subdomain subdomain s of
        (Inl IndexError, s') \<Rightarrow> (rest, s')
      | (Inl e, s') \<Rightarrow> worker rest (thread_error e s')
      | (Inr found, s') \<Rightarrow> worker rest s')"

section \<open>Workers running together\<close>

text \<open>
  Threads interleave between atomic steps. The atomic steps of a worker are
  \<open>subdomain_queue.pop(0)\<close> (one call on a list, atomic under the interpreter lock),
  the block of \<open>check_subdomain\<close> under \<open>self.lock\<close>, each call of \<open>requests.get\<close>,
  and the call of \<open>save_discovered_subdomain\<close>, whose body is under \<open>self.lock\<close>.
  The fields written under the lock are written nowhere else, so a block under the lock
  is one step. A thread is at one of these program points:
  \<^item> \<open>AtPop\<close>: at the top of the loop, before \<open>pop(0)\<close>;
  \<^item> \<open>AtCount subdomain\<close>: in \<open>check_subdomain\<close>, before the block that counts;
  \<^item> \<open>AtHttp subdomain\<close>: before the HTTP request;
  \<^item> \<open>AtHttps subdomain\<close>: before the HTTPS request;
  \<^item> \<open>AtSave subdomain url status_code\<close>: before \<open>save_discovered_subdomain\<close>, which is
    followed by \<open>return True\<close>;
  \<^item> \<open>Terminated\<close>: after \<open>break\<close>.
\<close>

datatype pc =
    AtPop
  | AtCount string
  | AtHttp string
  | AtHttps string
  | AtSave string string int
  | Terminated

text \<open>The handlers of \<open>worker\<close>, as the next program point and the state.\<close>

definition handle :: "exn \<Rightarrow> state \<Rightarrow> pc \<times> state" where
  "handle e s = (case e of IndexError \<Rightarrow> (Terminated, s) | _ \<Rightarrow> (AtPop, thread_error e s))"

fun worker_step :: "pc \<Rightarrow> string list \<Rightarrow> state \<Rightarrow> pc \<times> string list \<times> state" where
  "worker_step AtPop [] s = (Terminated, [], s)"
| "worker_step AtPop (subdomain # rest) s = (AtCount subdomain, rest, s)"
| "worker_step (AtCount subdomain) q s = (AtHttp subdomain, q, count_progress s)"
| "worker_step (AtHttp subdomain) q s =
     (let (r, s') = requests_get (http_request subdomain s) s
      in case attempt_of r of
           Success status_code \<Rightarrow> (AtSave subdomain (http_url subdomain s') status_code, q, s')
         | Failed \<Rightarrow> (AtHttps subdomain, q, s')
         | Escapes e \<Rightarrow> (let (p, s'') = handle e s' in (p, q, s'')))"
| "worker_step (AtHttps subdomain) q s =
     (let (r, s') = requests_get (https_request subdomain s) s
      in case attempt_of r of
           Success status_code \<Rightarrow> (AtSave subdomain (https_url subdomain s') status_code, q, s')
         | Failed \<Rightarrow> (AtPop, q, s')
         | Escapes e \<Rightarrow> (let (p, s'') = handle e s' in (p, q, s'')))"
| "worker_step (AtSave subdomain url status_code) q s =
     (case save_and_return subdomain url status_code s of
        (Inl e, s') \<Rightarrow> (let (p, s'') = handle e s' in (p, q, s''))
      | (Inr found, s') \<Rightarrow> (AtPop, q, s'))"
| "worker_step Terminated q s = (Terminated, q, s)"

text \<open>
  The pool: the list \<open>subdomain_queue\<close> that all workers share, the program point of
  each thread of \<open>threads\<close>, and the state.
\<close>

record pool =
  queue :: "string list"
  threads :: "pc list"
  st :: state

text \<open>Thread \<open>i\<close> takes its next atomic step; a thread that does not exist takes none.\<close>

definition thread_step :: "nat \<Rightarrow> pool \<Rightarrow> pool" where
  "thread_step i c =
     (if i < length (threads c)
      then (let (p, q, s) = worker_step (threads c ! i) (queue c) (st c)
            in \<lparr>queue = q, threads = (threads c)[i := p], st = s\<rparr>)
      else c)"

text \<open>A schedule names the thread that takes each step.\<close>

fun run_schedule :: "nat list \<Rightarrow> pool \<Rightarrow> pool" where
  "run_schedule [] c = c"
| "run_schedule (i # schedule) c = run_schedule schedule (thread_step i c)"

fun first_live :: "pc list \<Rightarrow> nat option" where
  "first_live [] = None"
| "first_live (p # ps) =
     (if p \<noteq> Terminated then Some 0 else map_option Suc (first_live ps))"

text \<open>
  The steps still to come: a candidate in the queue costs five steps (pop, count, two
  requests, save), a thread what is left of its candidate and its last \<open>pop\<close>.
\<close>

fun steps_left :: "pc \<Rightarrow> nat" where
  "steps_left Terminated = 0"
| "steps_left AtPop = 1"
| "steps_left (AtSave subdomain url status_code) = 2"
| "steps_left (AtHttps subdomain) = 3"
| "steps_left (AtHttp subdomain) = 4"
| "steps_left (AtCount subdomain) = 5"

definition work_left :: "pool \<Rightarrow> nat" where
  "work_left c = 5 * length (queue c) + sum_list (map steps_left (threads c))"

text \<open>
  \<open>t.join()\<close> for every thread returns once every worker has left its loop. Every step of
  a thread that has not left its loop lowers \<open>work_left\<close>, so the workers cannot run
  forever, whatever the order of their steps.
\<close>

lemma sum_list_map_update:
  fixes f :: "'a \<Rightarrow> nat"
  shows "i < length ps \<Longrightarrow> sum_list (map f (ps[i := p])) + f (ps ! i) = sum_list (map f ps) + f p"
proof (induction ps arbitrary: i)
  case Nil
  then show ?case by simp
next
  case (Cons a ps)
  then show ?case by (cases i) auto
qed

lemma first_live_Some: "first_live ps = Some i \<Longrightarrow> i < length ps \<and> ps ! i \<noteq> Terminated"
  by (induction ps arbitrary: i) (auto split: if_splits)

lemma first_live_None: "first_live ps = None \<longleftrightarrow> (\<forall>p \<in> set ps. p = Terminated)"
  by (induction ps) auto

lemma handle_steps_left: "handle e s = (p, s') \<Longrightarrow> steps_left p \<le> 1"
  by (auto simp: handle_def split: exn.splits)

lemma worker_step_decreases:
  assumes "p \<noteq> Terminated" and "worker_step p q s = (p', q', s')"
  shows "5 * length q' + steps_left p' < 5 * length q + steps_left p"
proof (cases p)
  case AtPop
  with assms show ?thesis by (cases q) auto
next
  case (AtCount x)
  with assms show ?thesis by auto
next
  case (AtHttp x)
  with assms show ?thesis
    by (auto simp: requests_get_def split: attempt.splits prod.splits dest: handle_steps_left)
next
  case (AtHttps x)
  with assms show ?thesis
    by (auto simp: requests_get_def split: attempt.splits prod.splits dest: handle_steps_left)
next
  case (AtSave x u c)
  with assms show ?thesis
    by (auto split: sum.splits prod.splits dest: handle_steps_left)
next
  case Terminated
  with assms show ?thesis by simp
qed

lemma thread_step_decreases:
  assumes "i < length (threads c)" and "threads c ! i \<noteq> Terminated"
  shows "work_left (thread_step i c) < work_left c"
proof -
  obtain p q s where w: "worker_step (threads c ! i) (queue c) (st c) = (p, q, s)"
    by (cases "worker_step (threads c ! i) (queue c) (st c)") auto
  from worker_step_decreases [OF assms(2) w]
  have d: "5 * length q + steps_left p < 5 * length (queue c) + steps_left (threads c ! i)" .
  from sum_list_map_update [OF assms(1), of steps_left p]
  have u: "sum_list (map steps_left ((threads c)[i := p])) + steps_left (threads c ! i)
             = sum_list (map steps_left (threads c)) + steps_left p" .
  from assms(1) w have "work_left (thread_step i c)
      = 5 * length q + sum_list (map steps_left ((threads c)[i := p]))"
    by (simp add: thread_step_def work_left_def)
  with d u show ?thesis by (simp add: work_left_def)
qed

text \<open>
  Whatever is still running is run to its end, the first thread that has not left its loop
  going first.
\<close>

function finish :: "pool \<Rightarrow> pool" where
  "finish c = (case first_live (threads c) of None \<Rightarrow> c | Some i \<Rightarrow> finish (thread_step i c))"
  by pat_completeness auto
termination
  by (relation "measure work_left") (auto dest!: first_live_Some simp: thread_step_decreases)

declare finish.simps [simp del]

text \<open>
  The main thread between the first \<open>t.start()\<close> and the last \<open>t.join()\<close>: the workers
  take their steps in the order of the schedule, and when the schedule is used up before
  all of them have left their loops, the rest runs as \<open>finish\<close> has it. Every complete
  run of the workers is the run of some schedule: the list of the threads that took its
  steps.
\<close>

definition join :: "nat list \<Rightarrow> pool \<Rightarrow> pool" where
  "join schedule c = finish (run_schedule schedule c)"

section \<open>enumerate\<close>

text \<open>
  \<open>subdomain_queue = subdomains.copy()\<close> and the loop over
  \<open>range(min(self.max_threads, len(subdomains)))\<close>, which is empty when the minimum is
  zero or negative (\<open>nat\<close> of it is then 0). A thread that was started and has not run
  yet is at \<open>AtPop\<close>.
\<close>

definition start_threads :: "string list \<Rightarrow> state \<Rightarrow> pool" where
  "start_threads subdomains s =
     \<lparr>queue = subdomains,
      threads = replicate (nat (min (max_threads s) (int (length subdomains)))) AtPop,
      st = s\<rparr>"

text \<open>The bytes that precede each line of the summary.\<close>

definition bullet :: string where
  "bullet = map char_of [32, 32, 0xC3, 0xA2, 0xE2, 0x80, 0xA0, 0xE2, 0x80, 0x99, 32 :: nat]"

text \<open>
  The lines printed after the last \<open>join\<close>; \<open>elapsed\<close> is the text of the time taken,
  which the model does not compute.
\<close>

definition report :: "string \<Rightarrow> state \<Rightarrow> state" where
  "report elapsed s =
     (let s1 = print (LF # ''[COMPLETE] Subdomain enumeration finished!'') s;
          s2 = print (''[STATS] Time taken: '' @ elapsed @ '' seconds'') s1;
          s3 = print (''[STATS] Total subdomains checked: '' @ str_int (total_subdomains s2)) s2;
          s4 = print (''[STATS] Active subdomains found: '' @
                      str_int (int (length (discovered_subdomains s3)))) s3;
          s5 = print (''[INFO] Results saved to '' @ output_file s4) s4
      in if discovered_subdomains s5 \<noteq> []
         then fold (\<lambda>subdomain. print (bullet @ subdomain)) (discovered_subdomains s5)
                (print (LF # ''[SUMMARY] Discovered subdomains:'') s5)
         else s5)"

text \<open>
  \<open>enumerate\<close> (the name is taken in HOL). The result is the error that left the method,
  or the list \<open>threads\<close> at its return (empty when it returned before starting any), and
  the state.
\<close>

definition enumerate_run :: "nat list \<Rightarrow> string \<Rightarrow> state \<Rightarrow> (exn + pc list) \<times> state" where
  "enumerate_run schedule elapsed s =
     (let s1 = print (''[INFO] Starting subdomain enumeration for '' @ domain s) s;
          s2 = print (''[INFO] Using '' @ str_int (max_threads s1) @ '' threads with '' @
                      str_int (timeout s1) @ ''s timeout'') s1
      in case open_write (output_file s2) (files s2) of
           Inl e \<Rightarrow> (Inl e, s2)
         | Inr fs \<Rightarrow>
             (case load_subdomains (s2\<lparr>files := fs\<rparr>) of
                (Inl e, s3) \<Rightarrow> (Inl e, s3)
              | (Inr subdomains, s3) \<Rightarrow>
                  if subdomains = [] then (Inr [], s3)
                  else (let c = join schedule (start_threads subdomains s3)
                        in (Inr (threads c), report elapsed (st c)))))"

section \<open>Observations, and a sample\<close>

text \<open>
  The text of the output file (empty when there is none), and whether it cannot be
  opened.
\<close>

definition log_text :: "state \<Rightarrow> string" where
  "log_text s = (case files s (output_file s) of Some (File content) \<Rightarrow> content | _ \<Rightarrow> [])"

definition log_blocked :: "state \<Rightarrow> bool" where
  "log_blocked s = (case files s (output_file s) of Some (Blocked m) \<Rightarrow> True | _ \<Rightarrow> False)"

text \<open>The lines of a list of entries, as the output file holds them.\<close>

definition log_lines :: "string list \<Rightarrow> string" where
  "log_lines ls = concat (map (\<lambda>l. l @ [LF]) ls)"

text \<open>
  The answers that the network gives to the two requests of a call of \<open>check_subdomain\<close>
  in state \<open>s\<close> (the HTTPS request, if sent, is sent right after the HTTP one), and
  whether the two tests of the method find the candidate live.
\<close>

definition http_answer :: "string \<Rightarrow> state \<Rightarrow> response" where
  "http_answer subdomain s = network s (sent s) (http_request subdomain s)"

definition https_answer :: "string \<Rightarrow> state \<Rightarrow> response" where
  "https_answer subdomain s =
     network s (sent s @ [http_request subdomain s]) (https_request subdomain s)"

definition found_live :: "string \<Rightarrow> state \<Rightarrow> bool" where
  "found_live subdomain s =
     (case attempt_of (http_answer subdomain s) of
        Success c \<Rightarrow> True
      | Escapes e \<Rightarrow> False
      | Failed \<Rightarrow> (case attempt_of (https_answer subdomain s) of Success c \<Rightarrow> True | _ \<Rightarrow> False))"

text \<open>
  The sample: \<open>a\<close> answers 200 over HTTP, \<open>b\<close> refuses both connections, \<open>c\<close> answers
  200 over HTTPS only, \<open>d\<close> answers 500 over HTTP and 301 over HTTPS. The output file
  holds a line of an earlier run.
\<close>

definition demo_net :: "request list \<Rightarrow> request \<Rightarrow> response" where
  "demo_net history r =
     (if req_url r = ''http://a.example.com'' then Response 200
      else if req_url r = ''https://c.example.com'' then Response 200
      else if req_url r = ''http://d.example.com'' then Response 500
      else if req_url r = ''https://d.example.com'' then Response 301
      else RequestError ''connection refused'')"

definition demo_files :: filesystem where
  "demo_files = [''subdomains.txt'' \<mapsto> File (''a'' @ [LF] @ ''b'' @ [LF] @ ''c'' @ [LF]),
                 ''discovered_subdomains.txt'' \<mapsto> File (''old'' @ [LF])]"

definition demo :: state where
  "demo = init ''example.com'' ''subdomains.txt'' ''discovered_subdomains.txt'' 50 5
            demo_files demo_net"

text \<open>
  The candidates that a run of \<open>enumerate\<close> reads: the stripped, non-blank lines of the
  candidate file as it is once the output file has been cut to length zero (the two
  paths may be the same); none when the file is missing or cannot be opened.
\<close>

definition candidates :: "state \<Rightarrow> string list" where
  "candidates s =
     (case ((files s)(output_file s \<mapsto> File [])) (subdomain_file s) of
        Some (File content) \<Rightarrow> parse_subdomains content
      | _ \<Rightarrow> [])"

text \<open>The state in which \<open>enumerate\<close> starts its threads, or returns for want of candidates.\<close>

definition loaded :: "state \<Rightarrow> state" where
  "loaded s =
     snd (load_subdomains
       ((print (''[INFO] Using '' @ str_int (max_threads s) @ '' threads with '' @
                str_int (timeout s) @ ''s timeout'')
          (print (''[INFO] Starting subdomain enumeration for '' @ domain s) s))
        \<lparr>files := (files s)(output_file s \<mapsto> File [])\<rparr>))"

text \<open>
  The candidates not counted yet: those still in the queue, and those that a worker has
  taken and not yet counted.
\<close>

fun awaiting :: "pc \<Rightarrow> nat" where
  "awaiting (AtCount subdomain) = 1"
| "awaiting p = 0"

definition uncounted :: "pool \<Rightarrow> nat" where
  "uncounted c = length (queue c) + sum_list (map awaiting (threads c))"

text \<open>
  The candidates not tried over HTTP yet (those in the queue and those that a worker has
  taken and not yet requested), and the addresses of the HTTP requests sent so far: the
  HTTP request of \<open>check_subdomain\<close> is the one that leaves \<open>verify\<close> at \<open>True\<close>.
\<close>

fun in_flight :: "pc \<Rightarrow> string list" where
  "in_flight (AtCount subdomain) = [subdomain]"
| "in_flight (AtHttp subdomain) = [subdomain]"
| "in_flight p = []"

definition untried :: "pool \<Rightarrow> string multiset" where
  "untried c = mset (queue c) + sum_list (map (\<lambda>p. mset (in_flight p)) (threads c))"

definition http_probes :: "state \<Rightarrow> string multiset" where
  "http_probes s = mset (map req_url (filter req_verify (sent s)))"

text \<open>A worker leaves its loop only when the queue is empty, and nothing fills it again.\<close>

definition drained :: "pool \<Rightarrow> bool" where
  "drained c \<longleftrightarrow> (Terminated \<in> set (threads c) \<longrightarrow> queue c = [])"

text \<open>The output file can be opened and holds the lines of \<open>discovered_subdomains\<close>.\<close>

definition log_agrees :: "state \<Rightarrow> bool" where
  "log_agrees s \<longleftrightarrow> \<not> log_blocked s \<and> log_text s = log_lines (discovered_subdomains s)"

text \<open>The sample with a candidate file that does not exist.\<close>

definition demo_missing :: state where
  "demo_missing = demo\<lparr>subdomain_file := ''nowhere.txt''\<rparr>"

section \<open>check_subdomain and save_discovered_subdomain\<close>

declare str_nat.simps [simp del]

lemma count_progress_fields [simp]:
  "domain (count_progress s) = domain s"
  "timeout (count_progress s) = timeout s"
  "output_file (count_progress s) = output_file s"
  "files (count_progress s) = files s"
  "sent (count_progress s) = sent s"
  "network (count_progress s) = network s"
  "discovered_subdomains (count_progress s) = discovered_subdomains s"
  "checked_count (count_progress s) = checked_count s + 1"
  by (simp_all add: count_progress_def print_def Let_def)

lemma requests_of_count_progress [simp]:
  "http_request x (count_progress s) = http_request x s"
  "https_request x (count_progress s) = https_request x s"
  "http_url x (count_progress s) = http_url x s"
  "https_url x (count_progress s) = https_url x s"
  "fqdn x (count_progress s) = fqdn x s"
  by (simp_all add: http_request_def https_request_def http_url_def https_url_def fqdn_def)

lemma requests_of_sent [simp]:
  "http_request x (s\<lparr>sent := l\<rparr>) = http_request x s"
  "https_request x (s\<lparr>sent := l\<rparr>) = https_request x s"
  "http_url x (s\<lparr>sent := l\<rparr>) = http_url x s"
  "https_url x (s\<lparr>sent := l\<rparr>) = https_url x s"
  "fqdn x (s\<lparr>sent := l\<rparr>) = fqdn x s"
  by (simp_all add: http_request_def https_request_def http_url_def https_url_def fqdn_def)

lemma attempt_of_Success: "attempt_of r = Success c \<longleftrightarrow> r = Response c \<and> c < 400"
  by (cases r) auto

lemma attempt_of_Failed:
  "attempt_of r = Failed \<longleftrightarrow> (\<exists>m. r = RequestError m) \<or> (\<exists>c. r = Response c \<and> 400 \<le> c)"
  by (cases r) auto

lemma attempt_of_Escapes: "attempt_of r = Escapes e \<longleftrightarrow> (\<exists>m. r = OtherError m \<and> e = OtherException m)"
  by (cases r) auto

lemma check_subdomain_http_live:
  assumes "attempt_of (http_answer x s) = Success c"
  shows "check_subdomain x s =
           save_and_return x (http_url x s) c ((count_progress s)\<lparr>sent := sent s @ [http_request x s]\<rparr>)"
  using assms by (simp add: check_subdomain_def requests_get_def http_answer_def Let_def)

lemma check_subdomain_http_escapes:
  assumes "attempt_of (http_answer x s) = Escapes e"
  shows "check_subdomain x s = (Inl e, count_progress s\<lparr>sent := sent s @ [http_request x s]\<rparr>)"
  using assms by (simp add: check_subdomain_def requests_get_def http_answer_def Let_def)

lemma check_subdomain_https_live:
  assumes "attempt_of (http_answer x s) = Failed" and "attempt_of (https_answer x s) = Success c"
  shows "check_subdomain x s =
           save_and_return x (https_url x s) c
             ((count_progress s)\<lparr>sent := sent s @ [http_request x s, https_request x s]\<rparr>)"
  using assms
  by (simp add: check_subdomain_def requests_get_def http_answer_def https_answer_def Let_def)

lemma check_subdomain_https_escapes:
  assumes "attempt_of (http_answer x s) = Failed" and "attempt_of (https_answer x s) = Escapes e"
  shows "check_subdomain x s =
           (Inl e, count_progress s\<lparr>sent := sent s @ [http_request x s, https_request x s]\<rparr>)"
  using assms
  by (simp add: check_subdomain_def requests_get_def http_answer_def https_answer_def Let_def)

lemma check_subdomain_not_live:
  assumes "attempt_of (http_answer x s) = Failed" and "attempt_of (https_answer x s) = Failed"
  shows "check_subdomain x s =
           (Inr False, count_progress s\<lparr>sent := sent s @ [http_request x s, https_request x s]\<rparr>)"
  using assms
  by (simp add: check_subdomain_def requests_get_def http_answer_def https_answer_def Let_def)

lemma save_discovered_fields [simp]:
  "discovered_subdomains (snd (save_discovered_subdomain f u c s)) =
     discovered_subdomains s @ [discovery_info f u c]"
  "sent (snd (save_discovered_subdomain f u c s)) = sent s"
  "checked_count (snd (save_discovered_subdomain f u c s)) = checked_count s"
  "output_file (snd (save_discovered_subdomain f u c s)) = output_file s"
  by (simp_all add: save_discovered_subdomain_def print_def Let_def split: sum.splits)

lemma save_discovered_open:
  assumes "\<not> log_blocked s"
  shows "save_discovered_subdomain f u c s =
           (Inr (), s\<lparr>discovered_subdomains := discovered_subdomains s @ [discovery_info f u c],
                       files := (files s)(output_file s \<mapsto>
                                  File (log_text s @ discovery_info f u c @ [LF])),
                       stdout := stdout s @ [''[FOUND] '' @ discovery_info f u c]\<rparr>)"
  using assms
  by (auto simp: save_discovered_subdomain_def open_append_def log_blocked_def log_text_def
      print_def Let_def split: option.splits fnode.splits)

lemma save_discovered_blocked:
  assumes "log_blocked s"
  shows "\<exists>m. save_discovered_subdomain f u c s =
           (Inl (OSError m), s\<lparr>discovered_subdomains := discovered_subdomains s @ [discovery_info f u c]\<rparr>)"
  using assms
  by (auto simp: save_discovered_subdomain_def open_append_def log_blocked_def
      Let_def split: option.splits fnode.splits)

lemma save_and_return_fields [simp]:
  "discovered_subdomains (snd (save_and_return x u c s)) =
     discovered_subdomains s @ [discovery_info (fqdn x s) u c]"
  "sent (snd (save_and_return x u c s)) = sent s"
  "checked_count (snd (save_and_return x u c s)) = checked_count s"
  by (simp_all add: save_and_return_def save_discovered_subdomain_def print_def Let_def
      split: sum.splits prod.splits)

lemma save_and_return_open:
  assumes "\<not> log_blocked s"
  shows "fst (save_and_return x u c s) = Inr True"
    and "log_text (snd (save_and_return x u c s)) = log_text s @ discovery_info (fqdn x s) u c @ [LF]"
  using assms by (simp_all add: save_and_return_def save_discovered_open log_text_def)

lemma log_of_count_sent [simp]:
  "log_blocked ((count_progress s)\<lparr>sent := l\<rparr>) = log_blocked s"
  "log_text ((count_progress s)\<lparr>sent := l\<rparr>) = log_text s"
  by (simp_all add: log_blocked_def log_text_def)

text \<open>
  Claim C2. When the HTTP request of a candidate comes back with a status code below
  400, \<open>check_subdomain\<close> sends that one request and no other (the HTTPS address is not
  contacted), appends the entry for the full name, the HTTP address and that status to
  \<open>discovered_subdomains\<close>, and, when the output file can be opened, returns \<open>True\<close> with
  the same entry appended to the file as one line.
\<close>

theorem check_subdomain_http_short_circuit:
  assumes "http_answer subdomain s = Response status_code" and "status_code < 400"
  shows "sent (snd (check_subdomain subdomain s)) = sent s @ [http_request subdomain s] \<and>
         discovered_subdomains (snd (check_subdomain subdomain s)) =
           discovered_subdomains s @
             [discovery_info (fqdn subdomain s) (http_url subdomain s) status_code] \<and>
         (\<not> log_blocked s \<longrightarrow>
            fst (check_subdomain subdomain s) = Inr True \<and>
            log_text (snd (check_subdomain subdomain s)) =
              log_text s @ discovery_info (fqdn subdomain s) (http_url subdomain s) status_code @ [LF])"
proof -
  from assms have "attempt_of (http_answer subdomain s) = Success status_code"
    by simp
  then have "check_subdomain subdomain s =
      save_and_return subdomain (http_url subdomain s) status_code
        ((count_progress s)\<lparr>sent := sent s @ [http_request subdomain s]\<rparr>)"
    by (rule check_subdomain_http_live)
  then show ?thesis
    by (simp add: save_and_return_open)
qed

lemmas demo_defs = demo_def init_def demo_net_def demo_files_def http_answer_def https_answer_def
  http_request_def https_request_def http_url_def https_url_def fqdn_def log_blocked_def
  log_text_def

theorem check_subdomain_http_short_circuit_witness:
  "http_answer ''a'' demo = Response 200 \<and> \<not> log_blocked demo \<and>
   sent (snd (check_subdomain ''a'' demo)) =
     [\<lparr>req_url = ''http://a.example.com'', req_timeout = 5, req_allow_redirects = True,
       req_verify = True\<rparr>] \<and>
   fst (check_subdomain ''a'' demo) = Inr True"
proof -
  have h: "http_answer ''a'' demo = Response 200"
    by (simp add: demo_defs)
  have b: "\<not> log_blocked demo"
    by (simp add: demo_defs)
  from check_subdomain_http_short_circuit [OF h] b
  have "sent (snd (check_subdomain ''a'' demo)) = sent demo @ [http_request ''a'' demo] \<and>
        fst (check_subdomain ''a'' demo) = Inr True"
    by simp
  with h b show ?thesis
    by (simp add: demo_defs)
qed

text \<open>
  Claim C3. When the HTTP request raises a \<open>RequestException\<close> or comes back with a
  status of 400 or more, \<open>check_subdomain\<close> sends exactly one more request: to the HTTPS
  address, with the same timeout, following redirects, with \<open>verify=False\<close>. When that
  one comes back with a status below 400, the entry recorded has the HTTPS address and
  the HTTPS status.
\<close>

theorem check_subdomain_https_fallback:
  assumes "(\<exists>m. http_answer subdomain s = RequestError m) \<or>
           (\<exists>c. http_answer subdomain s = Response c \<and> 400 \<le> c)"
  shows "sent (snd (check_subdomain subdomain s)) =
           sent s @ [http_request subdomain s, https_request subdomain s] \<and>
         https_request subdomain s =
           \<lparr>req_url = ''https://'' @ subdomain @ ''.'' @ domain s, req_timeout = timeout s,
            req_allow_redirects = True, req_verify = False\<rparr> \<and>
         req_timeout (https_request subdomain s) = req_timeout (http_request subdomain s) \<and>
         (\<forall>c. https_answer subdomain s = Response c \<and> c < 400 \<longrightarrow>
            discovered_subdomains (snd (check_subdomain subdomain s)) =
              discovered_subdomains s @
                [discovery_info (fqdn subdomain s) (https_url subdomain s) c] \<and>
            (\<not> log_blocked s \<longrightarrow>
               fst (check_subdomain subdomain s) = Inr True \<and>
               log_text (snd (check_subdomain subdomain s)) =
                 log_text s @ discovery_info (fqdn subdomain s) (https_url subdomain s) c @ [LF]))"
proof -
  from assms have f: "attempt_of (http_answer subdomain s) = Failed"
    by (simp add: attempt_of_Failed)
  have sent2: "sent (snd (check_subdomain subdomain s)) =
      sent s @ [http_request subdomain s, https_request subdomain s]"
  proof (cases "attempt_of (https_answer subdomain s)")
    case (Success c)
    from check_subdomain_https_live [OF f this] show ?thesis by simp
  next
    case Failed
    from check_subdomain_not_live [OF f this] show ?thesis by simp
  next
    case (Escapes e)
    from check_subdomain_https_escapes [OF f this] show ?thesis by simp
  qed
  have req: "https_request subdomain s =
      \<lparr>req_url = ''https://'' @ subdomain @ ''.'' @ domain s, req_timeout = timeout s,
       req_allow_redirects = True, req_verify = False\<rparr>"
    by (simp add: https_request_def https_url_def)
  have tmo: "req_timeout (https_request subdomain s) = req_timeout (http_request subdomain s)"
    by (simp add: https_request_def http_request_def)
  have live: "discovered_subdomains (snd (check_subdomain subdomain s)) =
        discovered_subdomains s @ [discovery_info (fqdn subdomain s) (https_url subdomain s) c] \<and>
      (\<not> log_blocked s \<longrightarrow>
         fst (check_subdomain subdomain s) = Inr True \<and>
         log_text (snd (check_subdomain subdomain s)) =
           log_text s @ discovery_info (fqdn subdomain s) (https_url subdomain s) c @ [LF])"
    if "https_answer subdomain s = Response c \<and> c < 400" for c
  proof -
    from that have "attempt_of (https_answer subdomain s) = Success c"
      by simp
    from check_subdomain_https_live [OF f this] show ?thesis
      by (simp add: save_and_return_open)
  qed
  from sent2 req tmo live show ?thesis
    by blast
qed

theorem check_subdomain_https_fallback_witness:
  "http_answer ''d'' demo = Response 500 \<and> https_answer ''d'' demo = Response 301 \<and>
   sent (snd (check_subdomain ''d'' demo)) =
     [\<lparr>req_url = ''http://d.example.com'', req_timeout = 5, req_allow_redirects = True,
       req_verify = True\<rparr>,
      \<lparr>req_url = ''https://d.example.com'', req_timeout = 5, req_allow_redirects = True,
       req_verify = False\<rparr>] \<and>
   discovered_subdomains (snd (check_subdomain ''d'' demo)) =
     [discovery_info ''d.example.com'' ''https://d.example.com'' 301] \<and>
   fst (check_subdomain ''d'' demo) = Inr True"
proof -
  have h: "http_answer ''d'' demo = Response 500"
    by (simp add: demo_defs)
  have h2: "https_answer ''d'' demo = Response 301"
    by (simp add: demo_defs)
  have b: "\<not> log_blocked demo"
    by (simp add: demo_defs)
  have "(\<exists>m. http_answer ''d'' demo = RequestError m) \<or>
        (\<exists>c. http_answer ''d'' demo = Response c \<and> 400 \<le> c)"
    using h by simp
  from check_subdomain_https_fallback [OF this] h2 b
  have "sent (snd (check_subdomain ''d'' demo)) =
          sent demo @ [http_request ''d'' demo, https_request ''d'' demo] \<and>
        discovered_subdomains (snd (check_subdomain ''d'' demo)) =
          discovered_subdomains demo @
            [discovery_info (fqdn ''d'' demo) (https_url ''d'' demo) 301] \<and>
        fst (check_subdomain ''d'' demo) = Inr True"
    by simp
  with h h2 show ?thesis
    by (simp add: demo_defs)
qed

lemma check_subdomain_cases:
  obtains (http_live) c where "attempt_of (http_answer x s) = Success c"
      "check_subdomain x s = save_and_return x (http_url x s) c
         ((count_progress s)\<lparr>sent := sent s @ [http_request x s]\<rparr>)"
    | (http_escapes) e where "attempt_of (http_answer x s) = Escapes e"
      "check_subdomain x s =
         (Inl e, (count_progress s)\<lparr>sent := sent s @ [http_request x s]\<rparr>)"
    | (https_live) c where "attempt_of (http_answer x s) = Failed"
      "attempt_of (https_answer x s) = Success c"
      "check_subdomain x s = save_and_return x (https_url x s) c
         ((count_progress s)\<lparr>sent := sent s @ [http_request x s, https_request x s]\<rparr>)"
    | (https_escapes) e where "attempt_of (http_answer x s) = Failed"
      "attempt_of (https_answer x s) = Escapes e"
      "check_subdomain x s =
         (Inl e, (count_progress s)\<lparr>sent := sent s @ [http_request x s, https_request x s]\<rparr>)"
    | (not_live) "attempt_of (http_answer x s) = Failed"
      "attempt_of (https_answer x s) = Failed"
      "check_subdomain x s =
         (Inr False, (count_progress s)\<lparr>sent := sent s @ [http_request x s, https_request x s]\<rparr>)"
proof (cases "attempt_of (http_answer x s)")
  case (Success c)
  with check_subdomain_http_live [OF Success] http_live show ?thesis by blast
next
  case (Escapes e)
  with check_subdomain_http_escapes [OF Escapes] http_escapes show ?thesis by blast
next
  case f: Failed
  show ?thesis
  proof (cases "attempt_of (https_answer x s)")
    case (Success c)
    with f check_subdomain_https_live [OF f Success] https_live show ?thesis by blast
  next
    case (Escapes e)
    with f check_subdomain_https_escapes [OF f Escapes] https_escapes show ?thesis by blast
  next
    case Failed
    with f check_subdomain_not_live [OF f Failed] not_live show ?thesis by blast
  qed
qed

text \<open>
  Claim C4. One call of \<open>check_subdomain\<close> appends at most one entry to
  \<open>discovered_subdomains\<close>: exactly one when the HTTP or the HTTPS attempt finds the
  candidate live, and none when both attempts fail (an exception of the request or a
  status of 400 or more), in which case the call returns \<open>False\<close> and has done nothing
  but count the candidate and send the two requests.
\<close>

theorem check_subdomain_at_most_one_verdict:
  "(discovered_subdomains (snd (check_subdomain subdomain s)) = discovered_subdomains s \<or>
    (\<exists>info. discovered_subdomains (snd (check_subdomain subdomain s)) =
       discovered_subdomains s @ [info])) \<and>
   (found_live subdomain s \<longrightarrow>
      length (discovered_subdomains (snd (check_subdomain subdomain s))) =
        length (discovered_subdomains s) + 1) \<and>
   (attempt_of (http_answer subdomain s) = Failed \<and>
    attempt_of (https_answer subdomain s) = Failed \<longrightarrow>
      check_subdomain subdomain s =
        (Inr False,
         (count_progress s)\<lparr>sent := sent s @
            [http_request subdomain s, https_request subdomain s]\<rparr>))"
  by (cases subdomain s rule: check_subdomain_cases) (simp_all add: found_live_def)

theorem check_subdomain_at_most_one_verdict_witness:
  "found_live ''a'' demo \<and>
   length (discovered_subdomains (snd (check_subdomain ''a'' demo))) = 1 \<and>
   attempt_of (http_answer ''b'' demo) = Failed \<and>
   attempt_of (https_answer ''b'' demo) = Failed \<and>
   fst (check_subdomain ''b'' demo) = Inr False \<and>
   discovered_subdomains (snd (check_subdomain ''b'' demo)) = [] \<and>
   files (snd (check_subdomain ''b'' demo)) = files demo"
proof -
  have a: "found_live ''a'' demo"
    by (simp add: found_live_def demo_defs)
  have b: "attempt_of (http_answer ''b'' demo) = Failed \<and>
           attempt_of (https_answer ''b'' demo) = Failed"
    by (simp add: demo_defs)
  have d: "discovered_subdomains demo = []"
    by (simp add: demo_defs)
  from check_subdomain_at_most_one_verdict [of "''a''" demo] a d
  have 1: "length (discovered_subdomains (snd (check_subdomain ''a'' demo))) = 1"
    by simp
  from check_subdomain_at_most_one_verdict [of "''b''" demo] b
  have "check_subdomain ''b'' demo =
      (Inr False, (count_progress demo)\<lparr>sent := sent demo @
         [http_request ''b'' demo, https_request ''b'' demo]\<rparr>)"
    by blast
  with a b d 1 show ?thesis
    by simp
qed

text \<open>
  Claim C5 says that an exception of the network during the HTTP or the HTTPS attempt
  makes \<open>check_subdomain\<close> return \<open>False\<close>. For candidate \<open>c\<close> of the sample the HTTP
  attempt raises and the HTTPS attempt answers 200: the call returns \<open>True\<close>.
\<close>

theorem check_subdomain_returns_true_counterexample:
  "http_answer ''c'' demo = RequestError ''connection refused'' \<and>
   fst (check_subdomain ''c'' demo) = Inr True"
proof -
  have h: "attempt_of (http_answer ''c'' demo) = Failed"
    by (simp add: demo_defs)
  have h2: "attempt_of (https_answer ''c'' demo) = Success 200"
    by (simp add: demo_defs)
  have b: "\<not> log_blocked demo"
    by (simp add: demo_defs)
  from check_subdomain_https_live [OF h h2] b
  have "fst (check_subdomain ''c'' demo) = Inr True"
    by (simp add: save_and_return_open)
  then show ?thesis
    by (simp add: demo_defs)
qed

lemma save_and_return_error:
  "fst (save_and_return x u c s) = Inl e \<Longrightarrow> \<exists>m. e = OSError m"
  by (auto simp: save_and_return_def save_discovered_subdomain_def open_append_def Let_def
      split: sum.splits option.splits fnode.splits prod.splits)

lemma check_subdomain_error:
  assumes "fst (check_subdomain x s) = Inl e"
  shows "(\<exists>m. e = OSError m) \<or> (\<exists>m. e = OtherException m)"
  using assms
  by (cases x s rule: check_subdomain_cases)
     (auto simp: attempt_of_Escapes dest: save_and_return_error)

text \<open>
  Claim C5, amended. No \<open>RequestException\<close> leaves \<open>check_subdomain\<close>. One raised by the
  HTTP attempt makes the method go on to the HTTPS attempt, and the call then returns
  \<open>False\<close> exactly when the HTTPS attempt fails too, and (the output file being one that
  can be opened) \<open>True\<close> exactly when the HTTPS attempt comes back with a status below
  400; one raised by the HTTPS attempt makes the call return \<open>False\<close>.
\<close>

theorem check_subdomain_contains_request_errors:
  "(\<forall>m. fst (check_subdomain subdomain s) \<noteq> Inl (RequestException m)) \<and>
   ((\<exists>m. http_answer subdomain s = RequestError m) \<longrightarrow>
      sent (snd (check_subdomain subdomain s)) =
        sent s @ [http_request subdomain s, https_request subdomain s] \<and>
      (fst (check_subdomain subdomain s) = Inr False \<longleftrightarrow>
         attempt_of (https_answer subdomain s) = Failed) \<and>
      (\<not> log_blocked s \<longrightarrow>
         (fst (check_subdomain subdomain s) = Inr True \<longleftrightarrow>
            (\<exists>c. https_answer subdomain s = Response c \<and> c < 400)))) \<and>
   (attempt_of (http_answer subdomain s) = Failed \<and>
    (\<exists>m. https_answer subdomain s = RequestError m) \<longrightarrow>
      fst (check_subdomain subdomain s) = Inr False)"
proof -
  have contained: "fst (check_subdomain subdomain s) \<noteq> Inl (RequestException m)" for m
    using check_subdomain_error [of subdomain s "RequestException m"] by auto
  have http_raised:
    "sent (snd (check_subdomain subdomain s)) =
       sent s @ [http_request subdomain s, https_request subdomain s] \<and>
     (fst (check_subdomain subdomain s) = Inr False \<longleftrightarrow>
        attempt_of (https_answer subdomain s) = Failed) \<and>
     (\<not> log_blocked s \<longrightarrow>
        (fst (check_subdomain subdomain s) = Inr True \<longleftrightarrow>
           (\<exists>c. https_answer subdomain s = Response c \<and> c < 400)))"
    if "\<exists>m. http_answer subdomain s = RequestError m"
  proof -
    from that have f: "attempt_of (http_answer subdomain s) = Failed"
      by auto
    then show ?thesis
    proof (cases subdomain s rule: check_subdomain_cases)
      case (https_live c)
      let ?t = "(count_progress s)\<lparr>sent := sent s @
        [http_request subdomain s, https_request subdomain s]\<rparr>"
      have 1: "sent (snd (check_subdomain subdomain s)) =
          sent s @ [http_request subdomain s, https_request subdomain s]"
        using https_live(3) by simp
      have 2: "fst (check_subdomain subdomain s) \<noteq> Inr False"
        using https_live(3)
        by (cases "save_discovered_subdomain (fqdn subdomain ?t) (https_url subdomain s) c ?t")
           (auto simp: save_and_return_def split: sum.splits)
      have 3: "fst (check_subdomain subdomain s) = Inr True" if "\<not> log_blocked s"
        using https_live(3) that by (simp add: save_and_return_open)
      from https_live(2) have 4: "\<exists>c. https_answer subdomain s = Response c \<and> c < 400"
        by (auto simp: attempt_of_Success)
      from 1 2 3 4 https_live(2) show ?thesis
        by simp
    next
      case (https_escapes e)
      then show ?thesis
        by (auto simp: attempt_of_Escapes)
    next
      case not_live
      then show ?thesis
        by (auto simp: attempt_of_Failed)
    qed simp_all
  qed
  have https_raised: "fst (check_subdomain subdomain s) = Inr False"
    if "attempt_of (http_answer subdomain s) = Failed \<and>
        (\<exists>m. https_answer subdomain s = RequestError m)"
  proof -
    from that have "attempt_of (http_answer subdomain s) = Failed"
      and "attempt_of (https_answer subdomain s) = Failed"
      by auto
    from check_subdomain_not_live [OF this] show ?thesis
      by simp
  qed
  from contained http_raised https_raised show ?thesis
    by blast
qed

theorem check_subdomain_contains_request_errors_witness:
  "(\<exists>m. http_answer ''b'' demo = RequestError m) \<and>
   (\<exists>m. https_answer ''b'' demo = RequestError m) \<and>
   fst (check_subdomain ''b'' demo) = Inr False \<and>
   length (sent (snd (check_subdomain ''b'' demo))) = 2 \<and>
   (\<exists>m. http_answer ''c'' demo = RequestError m) \<and>
   https_answer ''c'' demo = Response 200 \<and> \<not> log_blocked demo \<and>
   fst (check_subdomain ''c'' demo) = Inr True"
proof -
  have h: "http_answer ''b'' demo = RequestError ''connection refused''"
    by (simp add: demo_defs)
  have h2: "https_answer ''b'' demo = RequestError ''connection refused''"
    by (simp add: demo_defs)
  have e: "sent demo = []"
    by (simp add: demo_defs)
  from check_subdomain_contains_request_errors [of "''b''" demo] h h2 e
  have b: "fst (check_subdomain ''b'' demo) = Inr False \<and>
        length (sent (snd (check_subdomain ''b'' demo))) = 2"
    by simp
  have k: "http_answer ''c'' demo = RequestError ''connection refused''"
    by (simp add: demo_defs)
  have k2: "https_answer ''c'' demo = Response 200"
    by (simp add: demo_defs)
  have o: "\<not> log_blocked demo"
    by (simp add: demo_defs)
  from check_subdomain_contains_request_errors [of "''c''" demo] k k2 o
  have "fst (check_subdomain ''c'' demo) = Inr True"
    by simp
  with b h h2 k k2 o show ?thesis
    by simp
qed

lemma count_progress_config [simp]:
  "subdomain_file (count_progress s) = subdomain_file s"
  "max_threads (count_progress s) = max_threads s"
  "total_subdomains (count_progress s) = total_subdomains s"
  by (simp_all add: count_progress_def print_def Let_def)

lemma save_and_return_config [simp]:
  "domain (snd (save_and_return x u c s)) = domain s"
  "subdomain_file (snd (save_and_return x u c s)) = subdomain_file s"
  "output_file (snd (save_and_return x u c s)) = output_file s"
  "max_threads (snd (save_and_return x u c s)) = max_threads s"
  "timeout (snd (save_and_return x u c s)) = timeout s"
  "total_subdomains (snd (save_and_return x u c s)) = total_subdomains s"
  "network (snd (save_and_return x u c s)) = network s"
  by (simp_all add: save_and_return_def save_discovered_subdomain_def print_def Let_def
      split: sum.splits prod.splits)

text \<open>
  Claim C7 says that \<open>check_subdomain\<close> changes neither \<open>checked_count\<close> nor
  \<open>discovered_subdomains\<close> nor the output file. For candidate \<open>a\<close> of the sample it
  changes all three.
\<close>

theorem check_subdomain_side_effects_counterexample:
  "checked_count (snd (check_subdomain ''a'' demo)) \<noteq> checked_count demo \<and>
   discovered_subdomains (snd (check_subdomain ''a'' demo)) \<noteq> discovered_subdomains demo \<and>
   log_text (snd (check_subdomain ''a'' demo)) \<noteq> log_text demo"
proof -
  have h: "attempt_of (http_answer ''a'' demo) = Success 200"
    by (simp add: demo_defs)
  have b: "\<not> log_blocked demo"
    by (simp add: demo_defs)
  from check_subdomain_http_live [OF h] b show ?thesis
    by (simp add: save_and_return_open)
qed

text \<open>
  Claim C7, amended. Every call of \<open>check_subdomain\<close> adds one to \<open>checked_count\<close>. When
  neither attempt finds the candidate live, \<open>discovered_subdomains\<close> and the files are
  unchanged; when one does, the method itself appends one entry to
  \<open>discovered_subdomains\<close> and, when the output file can be opened, that entry as one
  line to the file. The domain, the two file names, the number of threads, the timeout
  and \<open>total_subdomains\<close> are never changed.
\<close>

theorem check_subdomain_side_effects:
  "checked_count (snd (check_subdomain subdomain s)) = checked_count s + 1 \<and>
   (\<not> found_live subdomain s \<longrightarrow>
      discovered_subdomains (snd (check_subdomain subdomain s)) = discovered_subdomains s \<and>
      files (snd (check_subdomain subdomain s)) = files s) \<and>
   (found_live subdomain s \<longrightarrow>
      (\<exists>info. discovered_subdomains (snd (check_subdomain subdomain s)) =
         discovered_subdomains s @ [info] \<and>
         (\<not> log_blocked s \<longrightarrow>
            log_text (snd (check_subdomain subdomain s)) = log_text s @ info @ [LF]))) \<and>
   domain (snd (check_subdomain subdomain s)) = domain s \<and>
   subdomain_file (snd (check_subdomain subdomain s)) = subdomain_file s \<and>
   output_file (snd (check_subdomain subdomain s)) = output_file s \<and>
   max_threads (snd (check_subdomain subdomain s)) = max_threads s \<and>
   timeout (snd (check_subdomain subdomain s)) = timeout s \<and>
   total_subdomains (snd (check_subdomain subdomain s)) = total_subdomains s"
  by (cases subdomain s rule: check_subdomain_cases)
     (simp_all add: found_live_def save_and_return_open)

theorem check_subdomain_side_effects_witness:
  "\<not> found_live ''b'' demo \<and> found_live ''c'' demo \<and> \<not> log_blocked demo \<and>
   checked_count (snd (check_subdomain ''b'' demo)) = 1 \<and>
   discovered_subdomains (snd (check_subdomain ''b'' demo)) = [] \<and>
   files (snd (check_subdomain ''b'' demo)) = files demo \<and>
   length (discovered_subdomains (snd (check_subdomain ''c'' demo))) = 1"
proof -
  have b: "\<not> found_live ''b'' demo"
    by (simp add: found_live_def demo_defs)
  have c: "found_live ''c'' demo"
    by (simp add: found_live_def demo_defs)
  have o: "\<not> log_blocked demo"
    by (simp add: demo_defs)
  have d: "discovered_subdomains demo = []" "checked_count demo = 0"
    by (simp_all add: demo_defs)
  from check_subdomain_side_effects [of "''b''" demo] b d
  have 1: "checked_count (snd (check_subdomain ''b'' demo)) = 1 \<and>
      discovered_subdomains (snd (check_subdomain ''b'' demo)) = [] \<and>
      files (snd (check_subdomain ''b'' demo)) = files demo"
    by simp
  from check_subdomain_side_effects [of "''c''" demo] c d o
  have 2: "length (discovered_subdomains (snd (check_subdomain ''c'' demo))) = 1"
    by auto
  from b c o 1 2 show ?thesis
    by blast
qed

lemma log_lines_snoc: "log_lines (ls @ [l]) = log_lines ls @ l @ [LF]"
  by (simp add: log_lines_def)

section \<open>The pool and enumerate\<close>

lemma handle_other: "e \<noteq> IndexError \<Longrightarrow> handle e s = (AtPop, thread_error e s)"
  by (cases e) (simp_all add: handle_def)

lemma attempt_of_not_IndexError: "attempt_of r = Escapes e \<Longrightarrow> e \<noteq> IndexError"
  by (auto simp: attempt_of_Escapes)

lemma save_and_return_not_IndexError: "save_and_return x u c s = (Inl e, s') \<Longrightarrow> e \<noteq> IndexError"
  using save_and_return_error [of x u c s e] by auto

lemma thread_error_fields [simp]:
  "checked_count (thread_error e s) = checked_count s"
  "discovered_subdomains (thread_error e s) = discovered_subdomains s"
  "files (thread_error e s) = files s"
  "output_file (thread_error e s) = output_file s"
  "sent (thread_error e s) = sent s"
  by (simp_all add: thread_error_def print_def)

lemma handle_fields [simp]:
  "checked_count (snd (handle e s)) = checked_count s"
  "discovered_subdomains (snd (handle e s)) = discovered_subdomains s"
  "files (snd (handle e s)) = files s"
  "output_file (snd (handle e s)) = output_file s"
  "sent (snd (handle e s)) = sent s"
  "awaiting (fst (handle e s)) = 0"
  by (cases e; simp add: handle_def)+

lemma handle_AtPop: "e \<noteq> IndexError \<Longrightarrow> fst (handle e s) = AtPop"
  by (simp add: handle_other)

lemma worker_step_counted:
  assumes "worker_step p q s = (p', q', s')"
  shows "checked_count s' + int (length q' + awaiting p') =
         checked_count s + int (length q + awaiting p)"
proof (cases p)
  case AtPop
  with assms show ?thesis by (cases q) auto
next
  case (AtCount x)
  with assms show ?thesis by auto
next
  case (AtHttp x)
  with assms show ?thesis
    by (auto simp: requests_get_def case_prod_beta Let_def split: attempt.splits)
next
  case (AtHttps x)
  with assms show ?thesis
    by (auto simp: requests_get_def case_prod_beta Let_def split: attempt.splits)
next
  case (AtSave x u c)
  with assms show ?thesis
    by (auto simp: case_prod_beta Let_def split: sum.splits)
next
  case Terminated
  with assms show ?thesis by auto
qed

lemma worker_step_drained:
  assumes "worker_step p q s = (p', q', s')" and that: "p = Terminated \<longrightarrow> q = []"
  shows "(p' = Terminated \<longrightarrow> q' = []) \<and> (q = [] \<longrightarrow> q' = [])"
proof (cases p)
  case AtPop
  with assms(1) show ?thesis by (cases q) auto
next
  case (AtCount x)
  with assms(1) show ?thesis by auto
next
  case (AtHttp x)
  with assms(1) show ?thesis
    by (auto simp: requests_get_def case_prod_beta Let_def handle_AtPop attempt_of_Escapes
        split: attempt.splits)
next
  case (AtHttps x)
  with assms show ?thesis
    by (auto simp: requests_get_def case_prod_beta Let_def handle_AtPop attempt_of_Escapes
        split: attempt.splits)
next
  case (AtSave x u c)
  with assms show ?thesis
    by (auto simp: case_prod_beta Let_def handle_AtPop split: sum.splits
        dest!: save_and_return_error)
next
  case Terminated
  with assms that show ?thesis by auto
qed

lemma thread_step_unfold:
  assumes "i < length (threads c)"
  obtains p q s where "worker_step (threads c ! i) (queue c) (st c) = (p, q, s)"
    and "thread_step i c = \<lparr>queue = q, threads = (threads c)[i := p], st = s\<rparr>"
proof -
  obtain p q s where w: "worker_step (threads c ! i) (queue c) (st c) = (p, q, s)"
    by (cases "worker_step (threads c ! i) (queue c) (st c)") auto
  with assms have "thread_step i c = \<lparr>queue = q, threads = (threads c)[i := p], st = s\<rparr>"
    by (simp add: thread_step_def)
  with w that show ?thesis by blast
qed

lemma thread_step_idle: "\<not> i < length (threads c) \<Longrightarrow> thread_step i c = c"
  by (simp add: thread_step_def)

lemma thread_step_length [simp]: "length (threads (thread_step i c)) = length (threads c)"
proof (cases "i < length (threads c)")
  case True
  then show ?thesis by (rule thread_step_unfold) simp
next
  case False
  then show ?thesis by (simp add: thread_step_idle)
qed

lemma thread_step_counted:
  "checked_count (st (thread_step i c)) + int (uncounted (thread_step i c)) =
   checked_count (st c) + int (uncounted c)"
proof (cases "i < length (threads c)")
  case True
  then show ?thesis
  proof (rule thread_step_unfold)
    fix p q s
    assume w: "worker_step (threads c ! i) (queue c) (st c) = (p, q, s)"
      and t: "thread_step i c = \<lparr>queue = q, threads = (threads c)[i := p], st = s\<rparr>"
    from sum_list_map_update [OF True, of awaiting p]
    have u: "sum_list (map awaiting ((threads c)[i := p])) + awaiting (threads c ! i) =
        sum_list (map awaiting (threads c)) + awaiting p" .
    from worker_step_counted [OF w] u t show ?thesis
      by (simp add: uncounted_def)
  qed
next
  case False
  then show ?thesis by (simp add: thread_step_idle)
qed

lemma thread_step_drained:
  assumes "drained c"
  shows "drained (thread_step i c)"
proof (cases "i < length (threads c)")
  case True
  then show ?thesis
  proof (rule thread_step_unfold)
    fix p q s
    assume w: "worker_step (threads c ! i) (queue c) (st c) = (p, q, s)"
      and t: "thread_step i c = \<lparr>queue = q, threads = (threads c)[i := p], st = s\<rparr>"
    have "threads c ! i = Terminated \<longrightarrow> queue c = []"
    proof
      assume "threads c ! i = Terminated"
      with nth_mem [OF True] have "Terminated \<in> set (threads c)" by simp
      with assms show "queue c = []" by (simp add: drained_def)
    qed
    from worker_step_drained [OF w this]
    have d: "(p = Terminated \<longrightarrow> q = []) \<and> (queue c = [] \<longrightarrow> q = [])" .
    have sub: "set ((threads c)[i := p]) \<subseteq> insert p (set (threads c))"
      by (rule set_update_subset_insert)
    have "q = []" if "Terminated \<in> set ((threads c)[i := p])"
    proof -
      from that sub have "Terminated = p \<or> Terminated \<in> set (threads c)" by blast
      then show ?thesis
      proof
        assume "Terminated = p"
        with d show ?thesis by simp
      next
        assume "Terminated \<in> set (threads c)"
        with assms have "queue c = []" by (simp add: drained_def)
        with d show ?thesis by simp
      qed
    qed
    with t show ?thesis
      by (simp add: drained_def)
  qed
next
  case False
  with assms show ?thesis by (simp add: thread_step_idle)
qed

text \<open>What every step keeps, every run keeps.\<close>

lemma run_schedule_invariant:
  assumes "\<And>i c. P c \<Longrightarrow> P (thread_step i c)" and "P c"
  shows "P (run_schedule schedule c)"
  using assms(2) by (induction schedule arbitrary: c) (simp_all add: assms(1))

lemma finish_None: "first_live (threads c) = None \<Longrightarrow> finish c = c"
  by (subst finish.simps) simp

lemma finish_Some: "first_live (threads c) = Some i \<Longrightarrow> finish c = finish (thread_step i c)"
  by (subst finish.simps) simp

lemma finish_invariant:
  assumes "\<And>i c. P c \<Longrightarrow> P (thread_step i c)" and "P c"
  shows "P (finish c)"
  using assms(2)
proof (induction c rule: finish.induct)
  case (1 c)
  show ?case
  proof (cases "first_live (threads c)")
    case None
    from "1.prems" show ?thesis
      by (simp only: finish_None [OF None])
  next
    case (Some i)
    from "1.prems" have "P (thread_step i c)"
      by (rule assms(1))
    with Some have "P (finish (thread_step i c))"
      by (rule "1.IH")
    then show ?thesis
      by (simp only: finish_Some [OF Some])
  qed
qed

lemma join_invariant:
  assumes "\<And>i c. P c \<Longrightarrow> P (thread_step i c)" and "P c"
  shows "P (join schedule c)"
proof -
  have "P (run_schedule schedule c)"
    using assms by (rule run_schedule_invariant)
  with assms(1) have "P (finish (run_schedule schedule c))"
    by (rule finish_invariant)
  then show ?thesis
    by (simp only: join_def)
qed

lemma finish_terminated: "first_live (threads (finish c)) = None"
proof (induction c rule: finish.induct)
  case (1 c)
  show ?case
  proof (cases "first_live (threads c)")
    case None
    then show ?thesis
      by (simp only: finish_None [OF None])
  next
    case (Some i)
    then have "first_live (threads (finish (thread_step i c))) = None"
      by (rule "1.IH")
    then show ?thesis
      by (simp only: finish_Some [OF Some])
  qed
qed

lemma join_terminated: "\<forall>p \<in> set (threads (join schedule c)). p = Terminated"
  using finish_terminated [of "run_schedule schedule c"]
  by (simp add: join_def first_live_None)

lemma join_length: "length (threads (join schedule c)) = length (threads c)"
  by (rule join_invariant [where P = "\<lambda>d. length (threads d) = length (threads c)"]) simp_all

lemma join_counted:
  "checked_count (st (join schedule c)) + int (uncounted (join schedule c)) =
   checked_count (st c) + int (uncounted c)"
  by (rule join_invariant [where P = "\<lambda>d. checked_count (st d) + int (uncounted d) =
        checked_count (st c) + int (uncounted c)"])
     (simp_all add: thread_step_counted)

lemma join_drained: "drained c \<Longrightarrow> drained (join schedule c)"
  by (rule join_invariant [where P = drained]) (simp_all add: thread_step_drained)

lemma all_terminated_awaiting: "\<forall>p \<in> set ps. p = Terminated \<Longrightarrow> sum_list (map awaiting ps) = 0"
  by (induction ps) auto

text \<open>The pool: with at least one thread, every candidate of the queue is counted.\<close>

lemma join_checks_all:
  assumes "threads c \<noteq> []" and "drained c"
  shows "checked_count (st (join schedule c)) = checked_count (st c) + int (uncounted c)"
proof -
  let ?d = "join schedule c"
  have t: "\<forall>p \<in> set (threads ?d). p = Terminated"
    by (rule join_terminated)
  have "length (threads ?d) = length (threads c)"
    by (rule join_length)
  with assms(1) have "threads ?d \<noteq> []"
    by auto
  then obtain p ps where "threads ?d = p # ps"
    by (cases "threads ?d") auto
  with t have "Terminated \<in> set (threads ?d)"
    by simp
  with join_drained [OF assms(2), of schedule] have "queue ?d = []"
    by (simp add: drained_def)
  with t have "uncounted ?d = 0"
    by (simp add: uncounted_def all_terminated_awaiting)
  with join_counted [of schedule c] show ?thesis
    by simp
qed

lemma loaded_fields [simp]:
  "checked_count (loaded s) = checked_count s"
  "max_threads (loaded s) = max_threads s"
  "discovered_subdomains (loaded s) = discovered_subdomains s"
  "sent (loaded s) = sent s"
  "output_file (loaded s) = output_file s"
  "files (loaded s) = (files s)(output_file s \<mapsto> File [])"
  "domain (loaded s) = domain s"
  by (simp_all add: loaded_def load_subdomains_def open_read_def print_def Let_def
      split: option.splits fnode.splits sum.splits exn.splits)

lemma enumerate_run_blocked:
  assumes "log_blocked s"
  shows "\<exists>m. fst (enumerate_run schedule elapsed s) = Inl (OSError m)"
  using assms
  by (auto simp: enumerate_run_def open_write_def log_blocked_def print_def Let_def
      split: option.splits fnode.splits)

lemma enumerate_run_open:
  assumes "\<not> log_blocked s"
  shows "enumerate_run schedule elapsed s =
           (if candidates s = [] then (Inr [], loaded s)
            else (Inr (threads (join schedule (start_threads (candidates s) (loaded s)))),
                  report elapsed (st (join schedule (start_threads (candidates s) (loaded s))))))"
proof -
  from assms have w: "open_write (output_file s) (files s) = Inr ((files s)(output_file s \<mapsto> File []))"
    by (auto simp: open_write_def log_blocked_def split: option.splits fnode.splits)
  show ?thesis
    by (simp add: enumerate_run_def w loaded_def candidates_def load_subdomains_def
        open_read_def print_def Let_def
        split: option.splits fnode.splits)
qed

lemma enumerate_run_returns:
  "(\<exists>ths. fst (enumerate_run schedule elapsed s) = Inr ths) \<longleftrightarrow> \<not> log_blocked s"
proof (cases "log_blocked s")
  case True
  with enumerate_run_blocked [OF True, of schedule elapsed] show ?thesis by auto
next
  case False
  then show ?thesis by (simp add: enumerate_run_open)
qed

lemma report_fields [simp]:
  "checked_count (report elapsed s) = checked_count s"
  "discovered_subdomains (report elapsed s) = discovered_subdomains s"
  "files (report elapsed s) = files s"
  "output_file (report elapsed s) = output_file s"
  "sent (report elapsed s) = sent s"
proof -
  have f: "checked_count (fold (\<lambda>x. print (bullet @ x)) xs t) = checked_count t \<and>
      discovered_subdomains (fold (\<lambda>x. print (bullet @ x)) xs t) = discovered_subdomains t \<and>
      files (fold (\<lambda>x. print (bullet @ x)) xs t) = files t \<and>
      output_file (fold (\<lambda>x. print (bullet @ x)) xs t) = output_file t \<and>
      sent (fold (\<lambda>x. print (bullet @ x)) xs t) = sent t" for xs t
    by (induction xs arbitrary: t) (simp_all add: print_def)
  show "checked_count (report elapsed s) = checked_count s"
    "discovered_subdomains (report elapsed s) = discovered_subdomains s"
    "files (report elapsed s) = files s"
    "output_file (report elapsed s) = output_file s"
    "sent (report elapsed s) = sent s"
    by (simp_all add: report_def Let_def f) (simp_all add: print_def)
qed

lemma start_threads_fields [simp]:
  "queue (start_threads subdomains s) = subdomains"
  "st (start_threads subdomains s) = s"
  "threads (start_threads subdomains s) =
     replicate (nat (min (max_threads s) (int (length subdomains)))) AtPop"
  by (simp_all add: start_threads_def)

lemma start_threads_uncounted: "uncounted (start_threads subdomains s) = length subdomains"
proof -
  have "sum_list (map awaiting (replicate n AtPop)) = 0" for n
    by (induction n) simp_all
  then show ?thesis
    by (simp add: uncounted_def)
qed

lemma start_threads_drained: "drained (start_threads subdomains s)"
  by (simp add: drained_def)

lemma sum_list_map_update_mset:
  fixes f :: "'a \<Rightarrow> 'b multiset"
  shows "i < length ps \<Longrightarrow> sum_list (map f (ps[i := p])) + f (ps ! i) = sum_list (map f ps) + f p"
proof (induction ps arbitrary: i)
  case Nil
  then show ?case by simp
next
  case (Cons a ps)
  then show ?case by (cases i) (auto simp: ac_simps)
qed

lemma handle_domain [simp]:
  "domain (snd (handle e s)) = domain s"
  "in_flight (fst (handle e s)) = []"
  by (cases e; simp add: handle_def thread_error_def print_def)+

lemma http_probes_fields [simp]:
  "http_probes (count_progress s) = http_probes s"
  "http_probes (snd (handle e s)) = http_probes s"
  "http_probes (snd (save_and_return x u c s)) = http_probes s"
  "http_probes (s\<lparr>sent := sent s @ [http_request x s]\<rparr>) = http_probes s + {#http_url x s#}"
  "http_probes (s\<lparr>sent := sent s @ [https_request x s]\<rparr>) = http_probes s"
  by (simp_all add: http_probes_def http_request_def https_request_def)

lemma http_url_domain: "domain s' = domain s \<Longrightarrow> http_url x s' = http_url x s"
  by (simp add: http_url_def)

lemma worker_step_probes:
  assumes "worker_step p q s = (p', q', s')"
  shows "domain s' = domain s \<and>
         http_probes s' + image_mset (\<lambda>x. http_url x s) (mset q' + mset (in_flight p')) =
         http_probes s + image_mset (\<lambda>x. http_url x s) (mset q + mset (in_flight p))"
proof (cases p)
  case AtPop
  with assms show ?thesis by (cases q) auto
next
  case (AtCount x)
  with assms show ?thesis by auto
next
  case (AtHttp x)
  with assms show ?thesis
    by (auto simp: requests_get_def case_prod_beta Let_def split: attempt.splits)
next
  case (AtHttps x)
  with assms show ?thesis
    by (auto simp: requests_get_def case_prod_beta Let_def split: attempt.splits)
next
  case (AtSave x u c)
  with assms show ?thesis
    by (auto simp: case_prod_beta Let_def split: sum.splits)
next
  case Terminated
  with assms show ?thesis by auto
qed

lemma thread_step_probes:
  assumes "domain (st c) = domain s0"
  shows "domain (st (thread_step i c)) = domain s0 \<and>
         http_probes (st (thread_step i c)) +
           image_mset (\<lambda>x. http_url x s0) (untried (thread_step i c)) =
         http_probes (st c) + image_mset (\<lambda>x. http_url x s0) (untried c)"
proof (cases "i < length (threads c)")
  case True
  then show ?thesis
  proof (rule thread_step_unfold)
    fix p q s
    assume w: "worker_step (threads c ! i) (queue c) (st c) = (p, q, s)"
      and t: "thread_step i c = \<lparr>queue = q, threads = (threads c)[i := p], st = s\<rparr>"
    let ?g = "image_mset (\<lambda>x. http_url x s0)"
    let ?f = "\<lambda>p. mset (in_flight p)"
    have g: "(\<lambda>x. http_url x (st c)) = (\<lambda>x. http_url x s0)"
      using assms by (simp add: http_url_def)
    from worker_step_probes [OF w] g
    have d: "domain s = domain (st c)"
      and e1: "http_probes s + (?g (mset q) + ?g (?f p)) =
          http_probes (st c) + (?g (mset (queue c)) + ?g (?f (threads c ! i)))"
      by simp_all
    from sum_list_map_update_mset [OF True, of ?f p]
    have "?g (sum_list (map ?f ((threads c)[i := p])) + ?f (threads c ! i)) =
        ?g (sum_list (map ?f (threads c)) + ?f p)"
      by simp
    then have e2: "?g (sum_list (map ?f ((threads c)[i := p]))) + ?g (?f (threads c ! i)) =
        ?g (sum_list (map ?f (threads c))) + ?g (?f p)"
      by simp
    have "(http_probes s + (?g (mset q) + ?g (sum_list (map ?f ((threads c)[i := p]))))) +
          ?g (?f (threads c ! i)) =
        (http_probes s + (?g (mset q) + ?g (?f p))) + ?g (sum_list (map ?f (threads c)))"
      using e2 by (simp add: ac_simps)
    also have "\<dots> = (http_probes (st c) + (?g (mset (queue c)) + ?g (?f (threads c ! i)))) +
        ?g (sum_list (map ?f (threads c)))"
      by (simp only: e1)
    also have "\<dots> = (http_probes (st c) +
        (?g (mset (queue c)) + ?g (sum_list (map ?f (threads c))))) + ?g (?f (threads c ! i))"
      by (simp add: ac_simps)
    finally have "http_probes s + (?g (mset q) + ?g (sum_list (map ?f ((threads c)[i := p])))) =
        http_probes (st c) + (?g (mset (queue c)) + ?g (sum_list (map ?f (threads c))))"
      by (rule add_right_imp_eq)
    with d assms t show ?thesis
      by (simp add: untried_def)
  qed
next
  case False
  with assms show ?thesis by (simp add: thread_step_idle)
qed

lemma join_probes:
  assumes "domain (st c) = domain s0"
  shows "http_probes (st (join schedule c)) +
           image_mset (\<lambda>x. http_url x s0) (untried (join schedule c)) =
         http_probes (st c) + image_mset (\<lambda>x. http_url x s0) (untried c)"
proof -
  let ?P = "\<lambda>d. domain (st d) = domain s0 \<and>
      http_probes (st d) + image_mset (\<lambda>x. http_url x s0) (untried d) =
      http_probes (st c) + image_mset (\<lambda>x. http_url x s0) (untried c)"
  have "?P (join schedule c)"
  proof (rule join_invariant [where P = ?P])
    show "?P (thread_step i d)" if "?P d" for i d
      using that thread_step_probes [of d s0 i] by simp
    show "?P c"
      using assms by simp
  qed
  then show ?thesis
    by simp
qed

lemma all_terminated_in_flight:
  "\<forall>p \<in> set ps. p = Terminated \<Longrightarrow> sum_list (map (\<lambda>p. mset (in_flight p)) ps) = {#}"
  by (induction ps) auto

lemma start_threads_untried: "untried (start_threads subdomains s) = mset subdomains"
proof -
  have "sum_list (map (\<lambda>p. mset (in_flight p)) (replicate n AtPop)) = {#}" for n
    by (induction n) simp_all
  then show ?thesis
    by (simp add: untried_def)
qed

text \<open>The pool: with at least one thread, every candidate of the queue is tried over HTTP once.\<close>

lemma join_probes_all:
  assumes "threads c \<noteq> []" and "drained c" and "domain (st c) = domain s0"
  shows "http_probes (st (join schedule c)) =
           http_probes (st c) + image_mset (\<lambda>x. http_url x s0) (untried c)"
proof -
  let ?d = "join schedule c"
  have t: "\<forall>p \<in> set (threads ?d). p = Terminated"
    by (rule join_terminated)
  have "length (threads ?d) = length (threads c)"
    by (rule join_length)
  with assms(1) have "threads ?d \<noteq> []"
    by auto
  then obtain p ps where "threads ?d = p # ps"
    by (cases "threads ?d") auto
  with t have "Terminated \<in> set (threads ?d)"
    by simp
  with join_drained [OF assms(2), of schedule] have "queue ?d = []"
    by (simp add: drained_def)
  with t have "untried ?d = {#}"
    by (simp add: untried_def all_terminated_in_flight)
  with join_probes [OF assms(3), of schedule] show ?thesis
    by simp
qed

lemma report_domain [simp]: "domain (report elapsed s) = domain s"
proof -
  have f: "domain (fold (\<lambda>x. print (bullet @ x)) xs t) = domain t" for xs t
    by (induction xs arbitrary: t) (simp_all add: print_def)
  show ?thesis
    by (simp add: report_def Let_def f) (simp add: print_def)
qed

lemma http_probes_report [simp]: "http_probes (report elapsed s) = http_probes s"
  by (simp add: http_probes_def)

lemma http_probes_loaded [simp]: "http_probes (loaded s) = http_probes s"
  by (simp add: http_probes_def)

text \<open>
  Claim C1. For every list of candidates, every number of threads of at least one and
  every schedule of the workers' steps, a run of \<open>enumerate\<close> that returns has raised
  \<open>checked_count\<close> by exactly the number of candidates, and has sent one HTTP request
  for each candidate of the list: none is lost and none is tried twice.
\<close>

theorem enumerate_run_checks_every_candidate:
  assumes "1 \<le> max_threads s" and "fst (enumerate_run schedule elapsed s) = Inr ths"
  shows "checked_count (snd (enumerate_run schedule elapsed s)) =
           checked_count s + int (length (candidates s)) \<and>
         http_probes (snd (enumerate_run schedule elapsed s)) =
           http_probes s + mset (map (\<lambda>x. http_url x s) (candidates s))"
proof -
  from assms(2) have o: "\<not> log_blocked s"
    using enumerate_run_returns [of schedule elapsed s] by blast
  show ?thesis
  proof (cases "candidates s = []")
    case True
    with o show ?thesis
      by (simp add: enumerate_run_open)
  next
    case False
    let ?c = "start_threads (candidates s) (loaded s)"
    from False assms(1) have n: "threads ?c \<noteq> []"
      by (auto simp: min_def)
    from join_checks_all [OF n start_threads_drained, of schedule]
    have 1: "checked_count (st (join schedule ?c)) = checked_count s + int (length (candidates s))"
      by (simp add: start_threads_uncounted)
    have "domain (st ?c) = domain s"
      by simp
    from join_probes_all [OF n start_threads_drained this, of schedule]
    have 2: "http_probes (st (join schedule ?c)) =
        http_probes s + mset (map (\<lambda>x. http_url x s) (candidates s))"
      by (simp add: start_threads_untried)
    from o False 1 2 show ?thesis
      by (simp add: enumerate_run_open)
  qed
qed

theorem enumerate_run_checks_every_candidate_witness:
  "1 \<le> max_threads demo \<and>
   fst (enumerate_run [0, 2, 1, 1, 0, 7, 2] ''0.42'' demo) =
     Inr [Terminated, Terminated, Terminated] \<and>
   candidates demo = [''a'', ''b'', ''c''] \<and>
   checked_count (snd (enumerate_run [0, 2, 1, 1, 0, 7, 2] ''0.42'' demo)) = 3 \<and>
   http_probes (snd (enumerate_run [0, 2, 1, 1, 0, 7, 2] ''0.42'' demo)) =
     {#''http://a.example.com'', ''http://b.example.com'', ''http://c.example.com''#}"
proof -
  have w: "1 \<le> max_threads demo"
    by (simp add: demo_defs)
  have o: "\<not> log_blocked demo"
    by (simp add: demo_defs)
  have l: "candidates demo = [''a'', ''b'', ''c'']"
    by code_simp
  have j: "threads (join [0, 2, 1, 1, 0, 7, 2] (start_threads [''a'', ''b'', ''c''] (loaded demo))) =
      [Terminated, Terminated, Terminated]"
    by code_simp
  from o l j have r: "fst (enumerate_run [0, 2, 1, 1, 0, 7, 2] ''0.42'' demo) =
      Inr [Terminated, Terminated, Terminated]"
    by (simp add: enumerate_run_open)
  have z: "checked_count demo = 0" "http_probes demo = {#}"
    by (simp_all add: http_probes_def demo_defs)
  have u: "http_url x demo = ''http://'' @ x @ ''.example.com''" for x
    by (simp add: demo_defs)
  from enumerate_run_checks_every_candidate [OF w r] l z u
  have "checked_count (snd (enumerate_run [0, 2, 1, 1, 0, 7, 2] ''0.42'' demo)) = 3 \<and>
      http_probes (snd (enumerate_run [0, 2, 1, 1, 0, 7, 2] ''0.42'' demo)) =
        {#''http://a.example.com'', ''http://b.example.com'', ''http://c.example.com''#}"
    by simp
  with w r l show ?thesis
    by blast
qed

text \<open>
  Claim C8. A run of \<open>enumerate\<close> that returns has started \<open>min(max_threads, N)\<close> workers
  for \<open>N\<close> candidates when \<open>max_threads\<close> is not negative, and none when it is negative
  (the range of the loop is then empty); never more workers than candidates; and all of
  them have left their loops at the return.
\<close>

theorem enumerate_run_worker_count:
  assumes "fst (enumerate_run schedule elapsed s) = Inr ths"
  shows "(0 \<le> max_threads s \<longrightarrow>
            int (length ths) = min (max_threads s) (int (length (candidates s)))) \<and>
         (max_threads s < 0 \<longrightarrow> ths = []) \<and>
         length ths \<le> length (candidates s) \<and>
         (\<forall>p \<in> set ths. p = Terminated)"
proof -
  from assms have o: "\<not> log_blocked s"
    using enumerate_run_returns [of schedule elapsed s] by blast
  show ?thesis
  proof (cases "candidates s = []")
    case True
    with o assms show ?thesis
      by (auto simp: enumerate_run_open)
  next
    case False
    let ?c = "start_threads (candidates s) (loaded s)"
    from o False assms have t: "ths = threads (join schedule ?c)"
      by (simp add: enumerate_run_open)
    then have "length ths = nat (min (max_threads s) (int (length (candidates s))))"
      by (simp add: join_length)
    moreover from t have "\<forall>p \<in> set ths. p = Terminated"
      by (simp add: join_terminated)
    ultimately show ?thesis
      by auto
  qed
qed

theorem enumerate_run_worker_count_witness:
  "fst (enumerate_run [1, 0] ''0.42'' (demo\<lparr>max_threads := 2\<rparr>)) = Inr [Terminated, Terminated] \<and>
   candidates (demo\<lparr>max_threads := 2\<rparr>) = [''a'', ''b'', ''c''] \<and>
   int (length [Terminated, Terminated]) =
     min (max_threads (demo\<lparr>max_threads := 2\<rparr>))
       (int (length (candidates (demo\<lparr>max_threads := 2\<rparr>)))) \<and>
   fst (enumerate_run [] ''0.42'' (demo\<lparr>max_threads := - 1\<rparr>)) = Inr []"
proof -
  have o: "\<not> log_blocked (demo\<lparr>max_threads := 2\<rparr>)"
    by (simp add: demo_defs)
  have l: "candidates (demo\<lparr>max_threads := 2\<rparr>) = [''a'', ''b'', ''c'']"
    by code_simp
  have j: "threads (join [1, 0] (start_threads [''a'', ''b'', ''c'']
      (loaded (demo\<lparr>max_threads := 2\<rparr>)))) = [Terminated, Terminated]"
    by code_simp
  from o l j have r: "fst (enumerate_run [1, 0] ''0.42'' (demo\<lparr>max_threads := 2\<rparr>)) =
      Inr [Terminated, Terminated]"
    by (simp add: enumerate_run_open)
  from enumerate_run_worker_count [OF r]
  have m: "int (length [Terminated, Terminated]) =
      min (max_threads (demo\<lparr>max_threads := 2\<rparr>))
        (int (length (candidates (demo\<lparr>max_threads := 2\<rparr>))))"
    by simp
  have "\<exists>ths. fst (enumerate_run [] ''0.42'' (demo\<lparr>max_threads := - 1\<rparr>)) = Inr ths"
    by (simp add: enumerate_run_returns demo_defs)
  then obtain ths where e: "fst (enumerate_run [] ''0.42'' (demo\<lparr>max_threads := - 1\<rparr>)) = Inr ths"
    by blast
  from enumerate_run_worker_count [OF e] have "ths = []"
    by simp
  with e r l m show ?thesis
    by simp
qed

text \<open>
  Claim C10. When the output file can be opened and the candidate file is missing or has
  no candidate, \<open>enumerate\<close> returns without starting a worker: nothing is sent, counted
  or recorded, and the output file is left empty, whatever it held before.
\<close>

theorem enumerate_run_truncates_first:
  assumes "\<not> log_blocked s"
    and "files s (subdomain_file s) = None \<or>
         (\<exists>content. files s (subdomain_file s) = Some (File content) \<and>
            parse_subdomains content = [])"
  shows "fst (enumerate_run schedule elapsed s) = Inr [] \<and>
         files (snd (enumerate_run schedule elapsed s)) (output_file s) = Some (File []) \<and>
         log_text (snd (enumerate_run schedule elapsed s)) = [] \<and>
         sent (snd (enumerate_run schedule elapsed s)) = sent s \<and>
         discovered_subdomains (snd (enumerate_run schedule elapsed s)) = discovered_subdomains s \<and>
         checked_count (snd (enumerate_run schedule elapsed s)) = checked_count s"
proof -
  have e: "parse_subdomains [] = []"
    by (simp add: parse_subdomains_def)
  from assms(2) have "candidates s = []"
    by (auto simp: candidates_def e)
  with assms(1) show ?thesis
    by (simp add: enumerate_run_open log_text_def)
qed

theorem enumerate_run_truncates_first_witness:
  "\<not> log_blocked demo_missing \<and> files demo_missing (subdomain_file demo_missing) = None \<and>
   log_text demo_missing = ''old'' @ [LF] \<and>
   fst (enumerate_run [] ''0.42'' demo_missing) = Inr [] \<and>
   log_text (snd (enumerate_run [] ''0.42'' demo_missing)) = []"
proof -
  have o: "\<not> log_blocked demo_missing"
    by (simp add: demo_missing_def demo_defs)
  have n: "files demo_missing (subdomain_file demo_missing) = None"
    by (simp add: demo_missing_def demo_defs)
  have t: "log_text demo_missing = ''old'' @ [LF]"
    by (simp add: demo_missing_def demo_defs)
  from n have "files demo_missing (subdomain_file demo_missing) = None \<or>
      (\<exists>content. files demo_missing (subdomain_file demo_missing) = Some (File content) \<and>
         parse_subdomains content = [])"
    by simp
  from enumerate_run_truncates_first [OF o this, of "[]" "''0.42''"]
  have "fst (enumerate_run [] ''0.42'' demo_missing) = Inr [] \<and>
      log_text (snd (enumerate_run [] ''0.42'' demo_missing)) = []"
    by simp
  with o n t show ?thesis
    by blast
qed

text \<open>
  Claim C6 says that \<open>load_subdomains\<close> fails with an error when the candidate file is
  missing. In the sample without candidate file it returns the empty list.
\<close>

theorem load_subdomains_returns_empty_counterexample:
  "files demo_missing (subdomain_file demo_missing) = None \<and>
   fst (load_subdomains demo_missing) = Inr []"
  by (simp add: load_subdomains_def open_read_def demo_missing_def demo_defs)

text \<open>
  Claim C6, amended. When the candidate file is missing, \<open>load_subdomains\<close> prints
  \<open>[ERROR] File <path> not found!\<close> and returns the empty list; when it cannot be read,
  it prints \<open>[ERROR] Error reading file: <e>\<close> and returns the empty list; it raises in
  no case. A run of \<open>enumerate\<close> then prints that line last and returns without starting
  a worker: nothing is sent, counted or recorded.
\<close>

theorem load_subdomains_reports_and_returns_empty:
  "(files s (subdomain_file s) = None \<longrightarrow>
      load_subdomains s =
        (Inr [], print (''[ERROR] File '' @ subdomain_file s @ '' not found!'') s)) \<and>
   (\<forall>m. files s (subdomain_file s) = Some (Blocked m) \<longrightarrow>
      load_subdomains s = (Inr [], print (''[ERROR] Error reading file: '' @ m) s)) \<and>
   (\<forall>e. fst (load_subdomains s) \<noteq> Inl e) \<and>
   (\<not> log_blocked s \<and> subdomain_file s \<noteq> output_file s \<and>
    (files s (subdomain_file s) = None \<or> (\<exists>m. files s (subdomain_file s) = Some (Blocked m))) \<longrightarrow>
      fst (enumerate_run schedule elapsed s) = Inr [] \<and>
      sent (snd (enumerate_run schedule elapsed s)) = sent s \<and>
      checked_count (snd (enumerate_run schedule elapsed s)) = checked_count s \<and>
      discovered_subdomains (snd (enumerate_run schedule elapsed s)) = discovered_subdomains s \<and>
      stdout (snd (enumerate_run schedule elapsed s)) =
        stdout s @
          [''[INFO] Starting subdomain enumeration for '' @ domain s,
           ''[INFO] Using '' @ str_int (max_threads s) @ '' threads with '' @
             str_int (timeout s) @ ''s timeout'',
           (case files s (subdomain_file s) of
              None \<Rightarrow> ''[ERROR] File '' @ subdomain_file s @ '' not found!''
            | Some (Blocked m) \<Rightarrow> ''[ERROR] Error reading file: '' @ m
            | Some (File content) \<Rightarrow> [])])"
proof (intro conjI allI impI)
  show "load_subdomains s =
      (Inr [], print (''[ERROR] File '' @ subdomain_file s @ '' not found!'') s)"
    if "files s (subdomain_file s) = None"
    using that by (simp add: load_subdomains_def open_read_def)
  show "load_subdomains s = (Inr [], print (''[ERROR] Error reading file: '' @ m) s)"
    if "files s (subdomain_file s) = Some (Blocked m)" for m
    using that by (simp add: load_subdomains_def open_read_def)
  show "fst (load_subdomains s) \<noteq> Inl e" for e
    by (simp add: load_subdomains_def open_read_def Let_def split: option.splits fnode.splits)
next
  assume a: "\<not> log_blocked s \<and> subdomain_file s \<noteq> output_file s \<and>
    (files s (subdomain_file s) = None \<or> (\<exists>m. files s (subdomain_file s) = Some (Blocked m)))"
  then have c: "candidates s = []"
    by (auto simp: candidates_def)
  from a c show "fst (enumerate_run schedule elapsed s) = Inr []"
    and "sent (snd (enumerate_run schedule elapsed s)) = sent s"
    and "checked_count (snd (enumerate_run schedule elapsed s)) = checked_count s"
    and "discovered_subdomains (snd (enumerate_run schedule elapsed s)) = discovered_subdomains s"
    by (simp_all add: enumerate_run_open)
  from a c show "stdout (snd (enumerate_run schedule elapsed s)) =
        stdout s @
          [''[INFO] Starting subdomain enumeration for '' @ domain s,
           ''[INFO] Using '' @ str_int (max_threads s) @ '' threads with '' @
             str_int (timeout s) @ ''s timeout'',
           (case files s (subdomain_file s) of
              None \<Rightarrow> ''[ERROR] File '' @ subdomain_file s @ '' not found!''
            | Some (Blocked m) \<Rightarrow> ''[ERROR] Error reading file: '' @ m
            | Some (File content) \<Rightarrow> [])]"
    by (auto simp: enumerate_run_open loaded_def load_subdomains_def open_read_def print_def)
qed

theorem load_subdomains_reports_and_returns_empty_witness:
  "files demo_missing (subdomain_file demo_missing) = None \<and>
   \<not> log_blocked demo_missing \<and>
   subdomain_file demo_missing \<noteq> output_file demo_missing \<and>
   load_subdomains demo_missing =
     (Inr [], print ''[ERROR] File nowhere.txt not found!'' demo_missing) \<and>
   fst (enumerate_run [] ''0.42'' demo_missing) = Inr [] \<and>
   sent (snd (enumerate_run [] ''0.42'' demo_missing)) = [] \<and>
   last (stdout (snd (enumerate_run [] ''0.42'' demo_missing))) =
     ''[ERROR] File nowhere.txt not found!''"
proof -
  have n: "files demo_missing (subdomain_file demo_missing) = None"
    by (simp add: demo_missing_def demo_defs)
  have o: "\<not> log_blocked demo_missing"
    by (simp add: demo_missing_def demo_defs)
  have d: "subdomain_file demo_missing \<noteq> output_file demo_missing"
    by (simp add: demo_missing_def demo_defs)
  have f: "subdomain_file demo_missing = ''nowhere.txt''" "sent demo_missing = []"
    by (simp_all add: demo_missing_def demo_defs)
  from load_subdomains_reports_and_returns_empty [of demo_missing "[]" "''0.42''"] n o d f
  show ?thesis
    by simp
qed

text \<open>One worker alone: the program points run through \<open>worker\<close> as the source has it.\<close>

lemma finish_single:
  assumes "p \<noteq> Terminated"
  shows "finish \<lparr>queue = q, threads = [p], st = s\<rparr> =
           finish \<lparr>queue = fst (snd (worker_step p q s)), threads = [fst (worker_step p q s)],
                   st = snd (snd (worker_step p q s))\<rparr>"
proof -
  from assms have "first_live (threads \<lparr>queue = q, threads = [p], st = s\<rparr>) = Some 0"
    by simp
  from finish_Some [OF this] show ?thesis
    by (simp add: thread_step_def case_prod_beta)
qed

lemma finish_single_terminated:
  "finish \<lparr>queue = q, threads = [Terminated], st = s\<rparr> = \<lparr>queue = q, threads = [Terminated], st = s\<rparr>"
  by (rule finish_None) simp

lemma finish_after_return:
  assumes "save_and_return x u c s = (r, s')"
  shows "finish \<lparr>queue = q, threads = [AtSave x u c], st = s\<rparr> =
           (case r of
              Inl e \<Rightarrow> finish \<lparr>queue = q, threads = [AtPop], st = thread_error e s'\<rparr>
            | Inr found \<Rightarrow> finish \<lparr>queue = q, threads = [AtPop], st = s'\<rparr>)"
proof (cases r)
  case (Inl e)
  with assms have "e \<noteq> IndexError"
    by (auto dest: save_and_return_not_IndexError)
  with assms Inl show ?thesis
    by (simp add: finish_single handle_other)
next
  case (Inr found)
  with assms show ?thesis
    by (simp add: finish_single)
qed

lemma finish_check_subdomain:
  "finish \<lparr>queue = q, threads = [AtCount x], st = s\<rparr> =
     (case check_subdomain x s of
        (Inl e, s') \<Rightarrow> finish \<lparr>queue = q, threads = [AtPop], st = thread_error e s'\<rparr>
      | (Inr found, s') \<Rightarrow> finish \<lparr>queue = q, threads = [AtPop], st = s'\<rparr>)"
proof (cases x s rule: check_subdomain_cases)
  case (http_live c)
  obtain r s' where e: "save_and_return x (http_url x s) c
      ((count_progress s)\<lparr>sent := sent s @ [http_request x s]\<rparr>) = (r, s')"
    by (cases "save_and_return x (http_url x s) c
      ((count_progress s)\<lparr>sent := sent s @ [http_request x s]\<rparr>)") auto
  from http_live(1) have "attempt_of (network s (sent s) (http_request x s)) = Success c"
    by (simp add: http_answer_def)
  then have "finish \<lparr>queue = q, threads = [AtCount x], st = s\<rparr> =
      finish \<lparr>queue = q, threads = [AtSave x (http_url x s) c],
              st = (count_progress s)\<lparr>sent := sent s @ [http_request x s]\<rparr>\<rparr>"
    by (simp add: finish_single requests_get_def)
  with http_live(2) e show ?thesis
    by (simp add: finish_after_return [OF e] split: sum.splits)
next
  case (http_escapes e)
  then have "attempt_of (network s (sent s) (http_request x s)) = Escapes e" and "e \<noteq> IndexError"
    by (auto simp: http_answer_def attempt_of_Escapes)
  with http_escapes(2) show ?thesis
    by (simp add: finish_single requests_get_def handle_other)
next
  case (https_live c)
  obtain r s' where e: "save_and_return x (https_url x s) c
      ((count_progress s)\<lparr>sent := sent s @ [http_request x s, https_request x s]\<rparr>) = (r, s')"
    by (cases "save_and_return x (https_url x s) c
      ((count_progress s)\<lparr>sent := sent s @ [http_request x s, https_request x s]\<rparr>)") auto
  from https_live(1,2) have "attempt_of (network s (sent s) (http_request x s)) = Failed"
    and "attempt_of (network s (sent s @ [http_request x s]) (https_request x s)) = Success c"
    by (simp_all add: http_answer_def https_answer_def)
  then have "finish \<lparr>queue = q, threads = [AtCount x], st = s\<rparr> =
      finish \<lparr>queue = q, threads = [AtSave x (https_url x s) c],
              st = (count_progress s)\<lparr>sent := sent s @ [http_request x s, https_request x s]\<rparr>\<rparr>"
    by (simp add: finish_single requests_get_def)
  with https_live(3) e show ?thesis
    by (simp add: finish_after_return [OF e] split: sum.splits)
next
  case (https_escapes e)
  then have "attempt_of (network s (sent s) (http_request x s)) = Failed"
    and "attempt_of (network s (sent s @ [http_request x s]) (https_request x s)) = Escapes e"
    and "e \<noteq> IndexError"
    by (auto simp: http_answer_def https_answer_def attempt_of_Escapes)
  with https_escapes(3) show ?thesis
    by (simp add: finish_single requests_get_def handle_other)
next
  case not_live
  then have "attempt_of (network s (sent s) (http_request x s)) = Failed"
    and "attempt_of (network s (sent s @ [http_request x s]) (https_request x s)) = Failed"
    by (simp_all add: http_answer_def https_answer_def)
  with not_live(3) show ?thesis
    by (simp add: finish_single requests_get_def)
qed

lemma single_worker:
  "finish \<lparr>queue = q, threads = [AtPop], st = s\<rparr> =
     \<lparr>queue = fst (worker q s), threads = [Terminated], st = snd (worker q s)\<rparr>"
proof (induction q arbitrary: s)
  case Nil
  show ?case
    by (simp add: finish_single finish_single_terminated)
next
  case (Cons x q)
  have p: "finish \<lparr>queue = x # q, threads = [AtPop], st = s\<rparr> =
      finish \<lparr>queue = q, threads = [AtCount x], st = s\<rparr>"
    by (simp add: finish_single)
  obtain r s' where c: "check_subdomain x s = (r, s')"
    by (cases "check_subdomain x s") auto
  show ?case
  proof (cases r)
    case (Inl e)
    with c check_subdomain_error [of x s e] have "e \<noteq> IndexError"
      by auto
    with c Inl Cons.IH [of "thread_error e s'"] show ?thesis
      by (cases e) (simp_all add: p finish_check_subdomain)
  next
    case (Inr found)
    with c Cons.IH [of s'] show ?thesis
      by (simp add: p finish_check_subdomain)
  qed
qed

lemma log_agrees_cong:
  assumes "files s' = files s" and "output_file s' = output_file s"
    and "discovered_subdomains s' = discovered_subdomains s"
  shows "log_agrees s' = log_agrees s"
  using assms by (simp add: log_agrees_def log_blocked_def log_text_def)

lemma save_discovered_log_agrees:
  assumes "log_agrees s"
  shows "log_agrees (snd (save_discovered_subdomain f u c s))"
  using assms
  by (simp add: log_agrees_def save_discovered_open log_lines_snoc)
     (simp add: log_blocked_def log_text_def)

lemma save_and_return_log_agrees:
  assumes "log_agrees s"
  shows "log_agrees (snd (save_and_return x u c s))"
proof -
  have "snd (save_and_return x u c s) = snd (save_discovered_subdomain (fqdn x s) u c s)"
    by (simp add: save_and_return_def split: prod.splits sum.splits)
  with save_discovered_log_agrees [OF assms] show ?thesis
    by simp
qed

lemma worker_step_log_agrees:
  assumes "worker_step p q s = (p', q', s')" and "log_agrees s"
  shows "log_agrees s'"
proof (cases p)
  case AtPop
  with assms show ?thesis by (cases q) auto
next
  case (AtCount x)
  with assms have "s' = count_progress s" by auto
  with assms(2) show ?thesis
    by (simp add: log_agrees_cong [of "count_progress s" s])
next
  case (AtHttp x)
  with assms(1) have "files s' = files s \<and> output_file s' = output_file s \<and>
      discovered_subdomains s' = discovered_subdomains s"
    by (auto simp: requests_get_def case_prod_beta Let_def split: attempt.splits)
  with assms(2) show ?thesis
    by (simp add: log_agrees_cong [of s' s])
next
  case (AtHttps x)
  with assms(1) have "files s' = files s \<and> output_file s' = output_file s \<and>
      discovered_subdomains s' = discovered_subdomains s"
    by (auto simp: requests_get_def case_prod_beta Let_def split: attempt.splits)
  with assms(2) show ?thesis
    by (simp add: log_agrees_cong [of s' s])
next
  case (AtSave x u c)
  let ?t = "snd (save_and_return x u c s)"
  from AtSave assms(1) have "files s' = files ?t \<and> output_file s' = output_file ?t \<and>
      discovered_subdomains s' = discovered_subdomains ?t"
    by (auto simp: case_prod_beta Let_def split: sum.splits)
  with save_and_return_log_agrees [OF assms(2), of x u c] show ?thesis
    by (simp add: log_agrees_cong [of s' ?t])
next
  case Terminated
  with assms show ?thesis by auto
qed

lemma thread_step_log_agrees:
  assumes "log_agrees (st c)"
  shows "log_agrees (st (thread_step i c))"
proof (cases "i < length (threads c)")
  case True
  then show ?thesis
  proof (rule thread_step_unfold)
    fix p q s
    assume w: "worker_step (threads c ! i) (queue c) (st c) = (p, q, s)"
      and t: "thread_step i c = \<lparr>queue = q, threads = (threads c)[i := p], st = s\<rparr>"
    from worker_step_log_agrees [OF w assms] t show ?thesis
      by simp
  qed
next
  case False
  with assms show ?thesis by (simp add: thread_step_idle)
qed

text \<open>
  In a run of \<open>enumerate\<close> on an object that has found nothing yet, the output file holds
  the lines of \<open>discovered_subdomains\<close> after every step of every worker, and at the
  return.
\<close>

lemma enumerate_run_log_agrees:
  assumes "\<not> log_blocked s" and "discovered_subdomains s = []"
  shows "log_agrees (st (run_schedule schedule (start_threads (candidates s) (loaded s))))"
    and "log_agrees (snd (enumerate_run schedule elapsed s))"
proof -
  from assms have l: "log_agrees (loaded s)"
    by (simp add: log_agrees_def log_blocked_def log_text_def log_lines_def)
  have "log_agrees (st (start_threads (candidates s) (loaded s)))"
    using l by simp
  then show "log_agrees (st (run_schedule schedule (start_threads (candidates s) (loaded s))))"
    by (rule run_schedule_invariant [where P = "\<lambda>c. log_agrees (st c)", rotated])
       (rule thread_step_log_agrees)
  have "log_agrees (st (start_threads (candidates s) (loaded s)))"
    using l by simp
  then have j: "log_agrees (st (join schedule (start_threads (candidates s) (loaded s))))"
    by (rule join_invariant [where P = "\<lambda>c. log_agrees (st c)", rotated])
       (rule thread_step_log_agrees)
  have "log_agrees (report elapsed t) = log_agrees t" for t
    by (rule log_agrees_cong) simp_all
  with j l assms(1) show "log_agrees (snd (enumerate_run schedule elapsed s))"
    by (simp add: enumerate_run_open)
qed

text \<open>
  The sample run: three workers on \<open>a\<close>, \<open>b\<close>, \<open>c\<close> find \<open>a\<close> over HTTP and \<open>c\<close> over
  HTTPS, count three candidates and leave two lines in the output file.
\<close>

lemma demo_run:
  "discovered_subdomains (st (join [0, 1, 2, 2, 1, 0, 2, 2, 2, 0, 0] (start_threads (candidates demo) (loaded demo)))) =
     [''c.example.com - https://c.example.com (Status: 200)'',
      ''a.example.com - http://a.example.com (Status: 200)'']"
  "checked_count (st (join [0, 1, 2, 2, 1, 0, 2, 2, 2, 0, 0] (start_threads (candidates demo) (loaded demo)))) = 3"
  "log_text (st (join [0, 1, 2, 2, 1, 0, 2, 2, 2, 0, 0] (start_threads (candidates demo) (loaded demo)))) =
     ''c.example.com - https://c.example.com (Status: 200)'' @ [LF] @
     ''a.example.com - http://a.example.com (Status: 200)'' @ [LF]"
  by code_simp+

text \<open>
  Claim C9. When the output file can be opened, \<open>save_discovered_subdomain\<close> appends the
  entry \<open><fqdn> - <url> (Status: <code>)\<close> to \<open>discovered_subdomains\<close> and the same
  entry, as one line, to the output file; if the file held the lines of the list before
  the call, it holds the lines of the list after it. Both changes are made in the one
  atomic step that a worker takes at \<open>AtSave\<close>, and once the file holds the lines of the
  list it does so after every step of every worker.
\<close>

theorem save_discovered_subdomain_log_agrees:
  assumes "\<not> log_blocked s"
  shows "fst (save_discovered_subdomain subdomain url status_code s) = Inr () \<and>
         discovered_subdomains (snd (save_discovered_subdomain subdomain url status_code s)) =
           discovered_subdomains s @
             [subdomain @ '' - '' @ url @ '' (Status: '' @ str_int status_code @ '')''] \<and>
         log_text (snd (save_discovered_subdomain subdomain url status_code s)) =
           log_text s @
             subdomain @ '' - '' @ url @ '' (Status: '' @ str_int status_code @ '')'' @ [LF] \<and>
         \<not> log_blocked (snd (save_discovered_subdomain subdomain url status_code s)) \<and>
         (log_text s = log_lines (discovered_subdomains s) \<longrightarrow>
            log_text (snd (save_discovered_subdomain subdomain url status_code s)) =
              log_lines (discovered_subdomains
                (snd (save_discovered_subdomain subdomain url status_code s)))) \<and>
         (\<forall>i c x. i < length (threads c) \<and> threads c ! i = AtSave x url status_code \<and>
            st c = s \<and> subdomain = fqdn x s \<longrightarrow>
            thread_step i c =
              \<lparr>queue = queue c, threads = (threads c)[i := AtPop],
               st = snd (save_discovered_subdomain subdomain url status_code s)\<rparr>) \<and>
         (\<forall>i c. st c = s \<and> log_text s = log_lines (discovered_subdomains s) \<longrightarrow>
            log_agrees (st (thread_step i c)))"
proof -
  have step: "log_agrees (st (thread_step i c))"
    if "st c = s \<and> log_text s = log_lines (discovered_subdomains s)" for i c
  proof -
    from that assms have "log_agrees (st c)"
      by (simp add: log_agrees_def)
    then show ?thesis
      by (rule thread_step_log_agrees)
  qed
  from assms have "fst (save_discovered_subdomain subdomain url status_code s) = Inr () \<and>
         discovered_subdomains (snd (save_discovered_subdomain subdomain url status_code s)) =
           discovered_subdomains s @
             [subdomain @ '' - '' @ url @ '' (Status: '' @ str_int status_code @ '')''] \<and>
         log_text (snd (save_discovered_subdomain subdomain url status_code s)) =
           log_text s @
             subdomain @ '' - '' @ url @ '' (Status: '' @ str_int status_code @ '')'' @ [LF] \<and>
         \<not> log_blocked (snd (save_discovered_subdomain subdomain url status_code s)) \<and>
         (log_text s = log_lines (discovered_subdomains s) \<longrightarrow>
            log_text (snd (save_discovered_subdomain subdomain url status_code s)) =
              log_lines (discovered_subdomains
                (snd (save_discovered_subdomain subdomain url status_code s)))) \<and>
         (\<forall>i c x. i < length (threads c) \<and> threads c ! i = AtSave x url status_code \<and>
            st c = s \<and> subdomain = fqdn x s \<longrightarrow>
            thread_step i c =
              \<lparr>queue = queue c, threads = (threads c)[i := AtPop],
               st = snd (save_discovered_subdomain subdomain url status_code s)\<rparr>)"
    by (simp add: save_discovered_open log_text_def log_blocked_def log_lines_snoc
        discovery_info_def thread_step_def save_and_return_def)
  with step show ?thesis
    by blast
qed

theorem save_discovered_subdomain_log_agrees_witness:
  "\<not> log_blocked (loaded demo) \<and>
   log_text (loaded demo) = log_lines (discovered_subdomains (loaded demo)) \<and>
   discovered_subdomains (snd (save_discovered_subdomain ''a.example.com''
      ''http://a.example.com'' 200 (loaded demo))) =
     [''a.example.com - http://a.example.com (Status: 200)''] \<and>
   log_text (snd (save_discovered_subdomain ''a.example.com'' ''http://a.example.com'' 200
      (loaded demo))) = ''a.example.com - http://a.example.com (Status: 200)'' @ [LF] \<and>
   threads (thread_step 0 \<lparr>queue = [], threads = [AtSave ''a'' ''http://a.example.com'' 200],
      st = loaded demo\<rparr>) = [AtPop] \<and>
   log_agrees (st (thread_step 0 (start_threads [''a''] (loaded demo))))"
proof -
  have o: "\<not> log_blocked (loaded demo)"
    by (simp add: log_blocked_def)
  have d: "discovered_subdomains (loaded demo) = []" "log_text (loaded demo) = []"
    by (simp_all add: log_text_def demo_defs)
  then have a: "log_text (loaded demo) = log_lines (discovered_subdomains (loaded demo))"
    by (simp add: log_lines_def)
  have n: "str_int 200 = ''200''"
    by code_simp
  have f: "''a.example.com'' = fqdn ''a'' (loaded demo)"
    by (simp add: fqdn_def demo_defs)
  note t = save_discovered_subdomain_log_agrees [OF o, of "''a.example.com''"
    "''http://a.example.com''" 200]
  from t n d have 1: "discovered_subdomains (snd (save_discovered_subdomain ''a.example.com''
      ''http://a.example.com'' 200 (loaded demo))) =
     [''a.example.com - http://a.example.com (Status: 200)'']"
    by simp
  from t n d have 2: "log_text (snd (save_discovered_subdomain ''a.example.com''
      ''http://a.example.com'' 200 (loaded demo))) =
      ''a.example.com - http://a.example.com (Status: 200)'' @ [LF]"
    by simp
  from t f have "thread_step 0 \<lparr>queue = [], threads = [AtSave ''a'' ''http://a.example.com'' 200],
      st = loaded demo\<rparr> =
     \<lparr>queue = [], threads = [AtPop],
      st = snd (save_discovered_subdomain ''a.example.com'' ''http://a.example.com'' 200
        (loaded demo))\<rparr>"
    by simp
  then have 3: "threads (thread_step 0 \<lparr>queue = [],
      threads = [AtSave ''a'' ''http://a.example.com'' 200], st = loaded demo\<rparr>) = [AtPop]"
    by simp
  from t a have 4: "log_agrees (st (thread_step 0 (start_threads [''a''] (loaded demo))))"
    by simp
  from o a 1 2 3 4 show ?thesis
    by blast
qed

end
